theory Spec2Isabelle
  imports Main "HOL-Library.Multiset" "HOL-Library.Monad_Syntax"
begin

section \<open>The heap algorithms of heap.h, embedded\<close>

text \<open>
  The sequence a call works on is the storage that starts at the iterator \<open>first\<close>: a list,
  whose index 0 is \<open>*first\<close>. A position (an iterator of the range, or a value of the
  template's signed \<open>Distance\<close> type) is an \<open>int\<close>, the offset from \<open>first\<close>. \<open>last\<close> is
  the offset of the range's end and may be smaller than the storage's length (sortHeap
  pops on a shrinking range of one array).

  The one place where heap.h computes an index that grows is adjustHeap, whose child index
  \<open>2 * position + 2\<close> is stored in a variable of the template type \<open>Distance\<close>. adjustHeap
  therefore takes the type as a parameter (\<open>distance_type\<close>) and converts each child index
  to it (\<open>to_distance\<close>). Every public operation instantiates adjustHeap at the
  \<open>difference_type\<close> of the iterator, which the spec takes "wide enough for the maximum
  sequence length" and which is modelled as \<open>Unbounded\<close>: it holds every index the call
  computes (at \<open>ptrdiff_t\<close>, for any heap of at most half its maximum). promoteHeap only
  halves the position it is given, so the type plays no part in it.

  Dereferencing outside the storage is undefined behaviour in C++; here every read and
  write is checked, and a function returns \<open>None\<close> as soon as one falls outside. A result
  \<open>Some ys\<close> is a run that completed with every access inside the storage, \<open>ys\<close> being the
  storage afterwards.

  Every algorithm of the file comes twice, with \<open>operator<\<close> of the element type and with a
  \<open>Compare\<close> object; the two texts differ in that one expression only. The parameter
  \<open>compare\<close> stands for either.
\<close>

definition rd :: "'a list \<Rightarrow> int \<Rightarrow> 'a option" where
  "rd xs i = (if 0 \<le> i \<and> i < int (length xs) then Some (xs ! nat i) else None)"

definition wr :: "'a list \<Rightarrow> int \<Rightarrow> 'a \<Rightarrow> 'a list option" where
  "wr xs i v = (if 0 \<le> i \<and> i < int (length xs) then Some (xs[nat i := v]) else None)"

subsection \<open>promoteHeap\<close>

text \<open>
  The for loop of promoteHeap: \<open>parentPosition\<close> is computed first (\<open>>> 1\<close> on a signed
  value is the floor of the half, \<open>div 2\<close> on \<open>int\<close>), the parent is read only when
  \<open>position > topPosition\<close> holds (\<open>&&\<close> short-circuits), and the value is written when the
  loop ends.
\<close>

function promoteHeap ::
  "('a \<Rightarrow> 'a \<Rightarrow> bool) \<Rightarrow> 'a list \<Rightarrow> int \<Rightarrow> int \<Rightarrow> 'a \<Rightarrow> 'a list option" where
  "promoteHeap compare xs topPosition position val =
     (let parentPosition = (position - 1) div 2 in
      if position > topPosition then
        do {
          parent \<leftarrow> rd xs parentPosition;
          if compare parent val then
            do {
              xs' \<leftarrow> wr xs position parent;
              promoteHeap compare xs' topPosition parentPosition val
            }
          else wr xs position val
        }
      else wr xs position val)"
  by pat_completeness auto
termination
  by (relation "measure (\<lambda>(compare, xs, topPosition, position, val). nat position)")
     (auto simp: rd_def wr_def split: if_splits)

declare promoteHeap.simps [simp del]

subsection \<open>adjustHeap\<close>

text \<open>
  The template parameter \<open>Distance\<close>: \<open>Signed w\<close> is the two's complement signed type of
  \<open>w\<close> bits (\<open>signed char\<close> is \<open>Signed 8\<close>), \<open>Unbounded\<close> a type that holds every index.
  \<open>to_distance\<close> is the value a variable of the type holds after \<open>k\<close> is stored in it: \<open>k\<close>
  itself when it fits, and \<open>k\<close> wrapped to \<open>w\<close> bits when it does not (the narrowing of a
  type smaller than \<open>int\<close>; at \<open>int\<close> and wider the overflow is undefined behaviour, of which
  the wrap is the usual outcome).
\<close>

datatype distance_type = Unbounded | Signed nat

fun to_distance :: "distance_type \<Rightarrow> int \<Rightarrow> int" where
  "to_distance Unbounded k = k"
| "to_distance (Signed w) k = signed_take_bit (w - 1) k"

text \<open>
  The for loop of adjustHeap, returning the storage, \<open>position\<close> and \<open>childPosition\<close> as the
  loop leaves them. At the unbounded type \<open>childPosition\<close> grows toward \<open>heapSize\<close>; at a
  type of \<open>w\<close> bits it grows while it fits, and an index that wrapped is at most 0, where
  the next read falls before the storage.
\<close>

function adjustHeap_loop ::
  "distance_type \<Rightarrow> ('a \<Rightarrow> 'a \<Rightarrow> bool) \<Rightarrow> 'a list \<Rightarrow> int \<Rightarrow> int \<Rightarrow> int \<Rightarrow>
     ('a list \<times> int \<times> int) option" where
  "adjustHeap_loop distance compare xs heapSize position childPosition =
     (if childPosition < heapSize then
        do {
          right \<leftarrow> rd xs childPosition;
          left \<leftarrow> rd xs (childPosition - 1);
          let childPosition' = (if compare right left then childPosition - 1 else childPosition);
          child \<leftarrow> rd xs childPosition';
          xs' \<leftarrow> wr xs position child;
          adjustHeap_loop distance compare xs' heapSize childPosition'
            (to_distance distance (2 * childPosition' + 2))
        }
      else Some (xs, position, childPosition))"
  by pat_completeness auto
termination
proof (relation "measure (\<lambda>(distance, compare, xs, heapSize, position, childPosition).
    case distance of
      Unbounded \<Rightarrow> nat (heapSize - childPosition)
    | Signed w \<Rightarrow>
        (if 1 \<le> childPosition \<and> childPosition < heapSize then
           (if childPosition < 2 ^ (w - 1) then 1 + nat (2 ^ (w - 1) - childPosition)
            else 2 + nat (2 ^ (w - 1)))
         else 0))", goal_cases)
  case 1
  show ?case by simp
next
  case (2 distance compare xs heapSize position childPosition right left childPosition' child xs')
  have c1: "1 \<le> childPosition"
    using "2"(3) by (simp add: rd_def split: if_splits)
  have c': "childPosition' = childPosition - 1 \<or> childPosition' = childPosition"
    using "2"(4) by (simp split: if_splits)
  show ?case
  proof (cases distance)
    case Unbounded
    then show ?thesis using "2"(1) c1 c' by auto
  next
    case (Signed w)
    let ?n = "w - 1"
    let ?k = "2 * childPosition' + 2"
    let ?r = "signed_take_bit ?n ?k"
    have P: "(0::int) < 2 ^ ?n" by simp
    have k0: "2 * childPosition \<le> ?k" "?k \<le> 2 * childPosition + 2" using c' by auto
    have rl: "?r < 2 ^ ?n" by simp
    have small: "?r \<le> 0 \<or> childPosition < ?r" if "childPosition < 2 ^ ?n"
    proof (cases "?k < 2 ^ ?n")
      case True
      then have "?r = ?k" using k0 c1 by (intro signed_take_bit_int_eq_self) linarith+
      then show ?thesis using k0 c1 by linarith
    next
      case False
      then have "?r \<le> ?k - 2 ^ Suc ?n" by (intro signed_take_bit_int_less_eq) linarith
      moreover have "?k \<le> 2 ^ Suc ?n" using k0 that by simp
      ultimately show ?thesis by linarith
    qed
    show ?thesis
    proof (cases "childPosition < 2 ^ ?n")
      case True
      from small [OF True] show ?thesis
        using Signed "2"(1) c1 True rl by auto
    next
      case False
      then show ?thesis using Signed "2"(1) c1 rl P by auto
    qed
  qed
qed

declare adjustHeap_loop.simps [simp del]

definition adjustHeap ::
  "distance_type \<Rightarrow> ('a \<Rightarrow> 'a \<Rightarrow> bool) \<Rightarrow> 'a list \<Rightarrow> int \<Rightarrow> int \<Rightarrow> int \<Rightarrow> 'a \<Rightarrow>
     'a list option" where
  "adjustHeap distance compare xs topPosition heapSize position val =
     do {
       (xs1, position1, childPosition) \<leftarrow>
         adjustHeap_loop distance compare xs heapSize position
           (to_distance distance (2 * position + 2));
       if childPosition = heapSize then
         do {
           child \<leftarrow> rd xs1 (childPosition - 1);
           xs2 \<leftarrow> wr xs1 position1 child;
           promoteHeap compare xs2 topPosition (childPosition - 1) val
         }
       else promoteHeap compare xs1 topPosition position1 val
     }"

subsection \<open>pushHeap, popHeap\<close>

text \<open>
  Here and below, the explicit template argument \<open>difference_type\<close> of the calls of
  adjustHeap is \<open>Unbounded\<close>.
\<close>

definition pushHeap :: "('a \<Rightarrow> 'a \<Rightarrow> bool) \<Rightarrow> 'a list \<Rightarrow> int \<Rightarrow> 'a list option" where
  "pushHeap compare xs lastPos =
     do {
       tempBottom \<leftarrow> rd xs (lastPos - 1);
       promoteHeap compare xs 0 (lastPos - 0 - 1) tempBottom
     }"

definition popHeap :: "('a \<Rightarrow> 'a \<Rightarrow> bool) \<Rightarrow> 'a list \<Rightarrow> int \<Rightarrow> 'a list option" where
  "popHeap compare xs lastPos =
     do {
       tempBottom \<leftarrow> rd xs (lastPos - 1);
       front \<leftarrow> rd xs 0;
       xs1 \<leftarrow> wr xs (lastPos - 1) front;
       adjustHeap Unbounded compare xs1 0 (lastPos - 0 - 1) 0 tempBottom
     }"

subsection \<open>makeHeap\<close>




subsection \<open>sortHeap\<close>

function sortHeap :: "('a \<Rightarrow> 'a \<Rightarrow> bool) \<Rightarrow> 'a list \<Rightarrow> int \<Rightarrow> 'a list option" where
  "sortHeap compare xs lastPos =
     (if lastPos - 0 > 1 then
        do {
          xs' \<leftarrow> popHeap compare xs lastPos;
          sortHeap compare xs' (lastPos - 1)
        }
      else Some xs)"
  by pat_completeness auto
termination
  by (relation "measure (\<lambda>(compare, xs, lastPos). nat lastPos)") auto

declare sortHeap.simps [simp del]

subsection \<open>removeHeap, changeHeap\<close>

definition removeHeap ::
  "('a \<Rightarrow> 'a \<Rightarrow> bool) \<Rightarrow> 'a list \<Rightarrow> int \<Rightarrow> int \<Rightarrow> 'a list option" where
  "removeHeap compare xs heapSize position =
     do {
       tempBottom \<leftarrow> rd xs (heapSize - 1);
       removed \<leftarrow> rd xs position;
       xs1 \<leftarrow> wr xs (heapSize - 1) removed;
       adjustHeap Unbounded compare xs1 0 (heapSize - 1) position tempBottom
     }"


subsection \<open>isHeap_until, isHeap\<close>

text \<open>
  The for loop of isHeap_until. \<open>first\<close> is the moving parent iterator, \<open>child\<close> the child
  iterator, \<open>counter\<close> the \<open>int\<close> that \<open>counter ^= 1\<close> flips; the result is the offset of the
  returned iterator.
\<close>

function isHeap_until_loop ::
  "('a \<Rightarrow> 'a \<Rightarrow> bool) \<Rightarrow> 'a list \<Rightarrow> int \<Rightarrow> int \<Rightarrow> int \<Rightarrow> int \<Rightarrow> int option" where
  "isHeap_until_loop compare xs lastPos first child counter =
     (if child < lastPos then
        do {
          p \<leftarrow> rd xs first;
          c \<leftarrow> rd xs child;
          if compare p c then Some child
          else isHeap_until_loop compare xs lastPos (first + counter) (child + 1) (xor counter 1)
        }
      else Some lastPos)"
  by pat_completeness auto
termination
  by (relation "measure (\<lambda>(compare, xs, lastPos, first, child, counter). nat (lastPos - child))")
     auto

declare isHeap_until_loop.simps [simp del]

definition isHeap_until :: "('a \<Rightarrow> 'a \<Rightarrow> bool) \<Rightarrow> 'a list \<Rightarrow> int \<Rightarrow> int option" where
  "isHeap_until compare xs lastPos = isHeap_until_loop compare xs lastPos 0 (0 + 1) 0"

definition isHeap :: "('a \<Rightarrow> 'a \<Rightarrow> bool) \<Rightarrow> 'a list \<Rightarrow> int \<Rightarrow> bool option" where
  "isHeap compare xs lastPos =
     do {
       r \<leftarrow> isHeap_until compare xs lastPos;
       Some (r = lastPos)
     }"

subsection \<open>Popping a whole heap\<close>


section \<open>The properties the heap algorithms are checked against\<close>

text \<open>
  The comparator contract of the data model: a strict weak ordering (irreflexive,
  transitive, and with a transitive "not lower than").
\<close>

definition strict_weak_order :: "('a \<Rightarrow> 'a \<Rightarrow> bool) \<Rightarrow> bool" where
  "strict_weak_order lt \<longleftrightarrow>
     (\<forall>a. \<not> lt a a) \<and>
     (\<forall>a b c. lt a b \<longrightarrow> lt b c \<longrightarrow> lt a c) \<and>
     (\<forall>a b c. \<not> lt a b \<longrightarrow> \<not> lt b c \<longrightarrow> \<not> lt a c)"

text \<open>The parent of position \<open>c\<close> in the implicit tree, as promoteHeap computes it.\<close>

definition parent :: "int \<Rightarrow> int" where
  "parent c = (c - 1) div 2"

text \<open>
  \<open>heap_from lt xs n t\<close>: in the region \<open>[0, n)\<close> no child is above its parent, for every
  parent at position \<open>t\<close> or later. With \<open>t = 0\<close> this is the heap invariant of the region;
  makeHeap establishes it for decreasing \<open>t\<close>.
\<close>

definition heap_from :: "('a \<Rightarrow> 'a \<Rightarrow> bool) \<Rightarrow> 'a list \<Rightarrow> int \<Rightarrow> int \<Rightarrow> bool" where
  "heap_from lt xs n t \<longleftrightarrow>
     (\<forall>c. 0 < c \<and> c < n \<and> t \<le> parent c \<longrightarrow> \<not> lt (xs ! nat (parent c)) (xs ! nat c))"

text \<open>
  The invariant of a sift with the vacated slot at \<open>pos\<close>: the heap order holds between all
  pairs that do not involve the slot, and the slot's parent is not below the slot's children
  (so that any of them may move up into the slot).
\<close>

definition sift_inv :: "('a \<Rightarrow> 'a \<Rightarrow> bool) \<Rightarrow> 'a list \<Rightarrow> int \<Rightarrow> int \<Rightarrow> int \<Rightarrow> bool" where
  "sift_inv lt xs n t pos \<longleftrightarrow>
     (\<forall>c. 0 < c \<and> c < n \<and> t \<le> parent c \<and> c \<noteq> pos \<and> parent c \<noteq> pos \<longrightarrow>
        \<not> lt (xs ! nat (parent c)) (xs ! nat c)) \<and>
     (\<forall>c. 0 < c \<and> c < n \<and> parent c = pos \<and> t < pos \<longrightarrow>
        \<not> lt (xs ! nat (parent pos)) (xs ! nat c))"

text \<open>For promoteHeap the carried value is, besides, not below the children of the slot.\<close>

definition promote_inv ::
  "('a \<Rightarrow> 'a \<Rightarrow> bool) \<Rightarrow> 'a list \<Rightarrow> int \<Rightarrow> int \<Rightarrow> int \<Rightarrow> 'a \<Rightarrow> bool" where
  "promote_inv lt xs n t pos v \<longleftrightarrow>
     sift_inv lt xs n t pos \<and>
     (\<forall>c. 0 < c \<and> c < n \<and> parent c = pos \<longrightarrow> \<not> lt v (xs ! nat c))"

text \<open>\<open>below t pos\<close>: position \<open>pos\<close> lies in the subtree rooted at \<open>t\<close>.\<close>

function below :: "int \<Rightarrow> int \<Rightarrow> bool" where
  "below t pos = (if pos \<le> t \<or> pos \<le> 0 then pos = t else below t (parent pos))"
  by pat_completeness auto
termination
  by (relation "measure (\<lambda>(t, pos). nat pos)") (auto simp: parent_def)

declare below.simps [simp del]



section \<open>Proofs\<close>

subsection \<open>The comparator, parents, reads and writes\<close>


lemma swo_irrefl: "strict_weak_order lt \<Longrightarrow> \<not> lt a a"
  by (simp add: strict_weak_order_def)

lemma swo_trans: "strict_weak_order lt \<Longrightarrow> lt a b \<Longrightarrow> lt b c \<Longrightarrow> lt a c"
  unfolding strict_weak_order_def by blast

lemma swo_asym: "strict_weak_order lt \<Longrightarrow> lt a b \<Longrightarrow> \<not> lt b a"
  unfolding strict_weak_order_def by blast

lemma swo_ntrans: "strict_weak_order lt \<Longrightarrow> \<not> lt a b \<Longrightarrow> \<not> lt b c \<Longrightarrow> \<not> lt a c"
  unfolding strict_weak_order_def by blast

lemma parent_nonneg: "0 < c \<Longrightarrow> 0 \<le> parent c"
  by (simp add: parent_def)

lemma parent_less: "0 \<le> c \<Longrightarrow> parent c < c"
  by (simp add: parent_def)

lemma parent_eq_iff: "parent c = p \<longleftrightarrow> c = 2 * p + 1 \<or> c = 2 * p + 2"
  unfolding parent_def by presburger

lemma parent_mono: "c \<le> d \<Longrightarrow> parent c \<le> parent d"
  unfolding parent_def by presburger

lemma nth_upd_int:
  "0 \<le> i \<Longrightarrow> 0 \<le> j \<Longrightarrow> i < int (length xs) \<Longrightarrow>
     (xs[nat i := v]) ! nat j = (if j = i then v else xs ! nat j)"
  by (auto simp: nth_list_update)

lemma rd_Some: "0 \<le> i \<Longrightarrow> i < int (length xs) \<Longrightarrow> rd xs i = Some (xs ! nat i)"
  by (simp add: rd_def)

lemma wr_Some: "0 \<le> i \<Longrightarrow> i < int (length xs) \<Longrightarrow> wr xs i v = Some (xs[nat i := v])"
  by (simp add: wr_def)

lemma rd_SomeD: "rd xs i = Some x \<Longrightarrow> 0 \<le> i \<and> i < int (length xs) \<and> x = xs ! nat i"
  by (auto simp: rd_def split: if_splits)

lemma wr_SomeD: "wr xs i v = Some ys \<Longrightarrow> 0 \<le> i \<and> i < int (length xs) \<and> ys = xs[nat i := v]"
  by (auto simp: wr_def split: if_splits)


lemma below_ge: "below t pos \<Longrightarrow> 0 \<le> t \<Longrightarrow> t \<le> pos"
proof (induction t pos rule: below.induct)
  case (1 t pos)
  show ?case
  proof (cases "pos \<le> t \<or> pos \<le> 0")
    case True
    then show ?thesis using "1.prems" by (simp add: below.simps)
  next
    case False
    then show ?thesis by simp
  qed
qed

lemma below_parent:
  assumes "below t pos" "0 \<le> t" "t < pos"
  shows "below t (parent pos)" "t \<le> parent pos"
proof -
  show "below t (parent pos)"
    using assms by (subst (asm) below.simps) (simp split: if_splits)
  then show "t \<le> parent pos"
    using assms(2) by (rule below_ge)
qed

lemma below_zero: "0 \<le> pos \<Longrightarrow> below 0 pos"
proof (induction "0::int" pos rule: below.induct)
  case (1 pos)
  show ?case
  proof (cases "pos \<le> 0")
    case True
    then show ?thesis using "1.prems" by (simp add: below.simps)
  next
    case False
    then have "0 \<le> parent pos" by (simp add: parent_nonneg)
    then show ?thesis using False "1.hyps" by (subst below.simps) simp
  qed
qed

lemma below_child:
  assumes "below t pos" "0 \<le> t" "parent c = pos"
  shows "below t c"
proof -
  have "t \<le> pos" using assms(1,2) by (rule below_ge)
  moreover have "pos < c"
    using assms(3) \<open>t \<le> pos\<close> assms(2) unfolding parent_eq_iff by linarith
  ultimately show ?thesis
    using assms by (subst below.simps) simp
qed

subsection \<open>promoteHeap keeps the invariant of the slot\<close>

lemma promote_inv_step:
  assumes swo: "strict_weak_order lt"
    and b: "0 \<le> t" "t < pos" "pos < n" "n \<le> int (length xs)"
    and bl: "below t pos"
    and inv: "promote_inv lt xs n t pos v"
    and lt: "lt (xs ! nat (parent pos)) v"
  shows "promote_inv lt (xs[nat pos := xs ! nat (parent pos)]) n t (parent pos) v"
proof -
  let ?p = "parent pos"
  let ?ys = "xs[nat pos := xs ! nat ?p]"
  have pos0: "0 < pos" "0 \<le> pos" using b(1,2) by linarith+
  have plt: "?p < pos" using pos0(2) by (rule parent_less)
  have tp: "t \<le> ?p" using bl b(1,2) by (rule below_parent)
  have p0: "0 \<le> ?p" using tp b(1) by linarith
  have len: "pos < int (length xs)" using b(3,4) by linarith
  have upd: "?ys ! nat j = (if j = pos then xs ! nat ?p else xs ! nat j)" if "0 \<le> j" for j
    using pos0(2) that len by (rule nth_upd_int)
  have updne: "?ys ! nat j = xs ! nat j" if "0 \<le> j" "j \<noteq> pos" for j
    using upd [OF that(1)] that(2) by simp
  from inv have A: "\<And>c. 0 < c \<Longrightarrow> c < n \<Longrightarrow> t \<le> parent c \<Longrightarrow> c \<noteq> pos \<Longrightarrow>
      parent c \<noteq> pos \<Longrightarrow> \<not> lt (xs ! nat (parent c)) (xs ! nat c)"
    and C: "\<And>c. 0 < c \<Longrightarrow> c < n \<Longrightarrow> parent c = pos \<Longrightarrow>
      \<not> lt (xs ! nat ?p) (xs ! nat c)"
    and B: "\<And>c. 0 < c \<Longrightarrow> c < n \<Longrightarrow> parent c = pos \<Longrightarrow> \<not> lt v (xs ! nat c)"
    using b(2) unfolding promote_inv_def sift_inv_def by blast+
  have a': "\<not> lt (?ys ! nat (parent c)) (?ys ! nat c)"
    if c: "0 < c" "c < n" "t \<le> parent c" "c \<noteq> ?p" "parent c \<noteq> ?p" for c
  proof -
    have c0: "0 \<le> c" using c(1) by linarith
    have pc0: "0 \<le> parent c" using c(1) by (rule parent_nonneg)
    have cne: "c \<noteq> pos" using c(5) by blast
    have yc: "?ys ! nat c = xs ! nat c" using c0 cne by (rule updne)
    show ?thesis
    proof (cases "parent c = pos")
      case True
      have "?ys ! nat (parent c) = xs ! nat ?p" using upd [OF pc0] True by simp
      then show ?thesis using C [OF c(1,2) True] yc by simp
    next
      case False
      have "?ys ! nat (parent c) = xs ! nat (parent c)" using pc0 False by (rule updne)
      then show ?thesis using A [OF c(1,2,3) cne False] yc by simp
    qed
  qed
  have sib: "\<not> lt (xs ! nat ?p) (?ys ! nat c)"
    if c: "0 < c" "c < n" "parent c = ?p" for c
  proof -
    have c0: "0 \<le> c" using c(1) by linarith
    show ?thesis
    proof (cases "c = pos")
      case True
      then have "?ys ! nat c = xs ! nat ?p" using upd [OF c0] by simp
      then show ?thesis using swo_irrefl [OF swo] by simp
    next
      case False
      have ne: "parent c \<noteq> pos" using c(3) plt by linarith
      have tc: "t \<le> parent c" using c(3) tp by simp
      have "?ys ! nat c = xs ! nat c" using c0 False by (rule updne)
      then show ?thesis using A [OF c(1,2) tc False ne] c(3) by simp
    qed
  qed
  have b': "\<not> lt v (?ys ! nat c)" if c: "0 < c" "c < n" "parent c = ?p" for c
    using swo_trans [OF swo lt] sib [OF c] by blast
  have c': "\<not> lt (?ys ! nat (parent ?p)) (?ys ! nat c)"
    if c: "0 < c" "c < n" "parent c = ?p" "t < ?p" for c
  proof -
    have blp: "below t ?p" using bl b(1,2) by (rule below_parent)
    have tpp: "t \<le> parent ?p" using blp b(1) c(4) by (rule below_parent)
    have pp0: "0 \<le> parent ?p" using tpp b(1) by linarith
    have p1: "0 < ?p" using c(4) b(1) by linarith
    have ppl: "parent ?p < ?p" using p0 by (rule parent_less)
    have ppne: "parent ?p \<noteq> pos" using ppl plt by linarith
    have pne: "?p \<noteq> pos" using plt by linarith
    have pn: "?p < n" using plt b(3) by linarith
    have 1: "\<not> lt (xs ! nat (parent ?p)) (xs ! nat ?p)"
      by (rule A [OF p1 pn tpp pne ppne])
    have "?ys ! nat (parent ?p) = xs ! nat (parent ?p)" using pp0 ppne by (rule updne)
    then show ?thesis
      using swo_ntrans [OF swo 1 sib [OF c(1,2,3)]] by simp
  qed
  show ?thesis
    unfolding promote_inv_def sift_inv_def using a' b' c' by blast
qed

lemma promote_inv_place:
  assumes b: "0 \<le> t" "t \<le> pos" "pos < n" "n \<le> int (length xs)"
    and inv: "promote_inv lt xs n t pos v"
    and stop: "pos = t \<or> \<not> lt (xs ! nat (parent pos)) v"
  shows "heap_from lt (xs[nat pos := v]) n t"
  unfolding heap_from_def
proof (intro allI impI, elim conjE)
  fix c
  let ?ys = "xs[nat pos := v]"
  assume c: "0 < c" "c < n" "t \<le> parent c"
  have pos0: "0 \<le> pos" using b(1,2) by linarith
  have len: "pos < int (length xs)" using b(3,4) by linarith
  have upd: "?ys ! nat j = (if j = pos then v else xs ! nat j)" if "0 \<le> j" for j
    using pos0 that len by (rule nth_upd_int)
  have c0: "0 \<le> c" using c(1) by linarith
  have pc0: "0 \<le> parent c" using c(1) by (rule parent_nonneg)
  have pcl: "parent c < c" using c0 by (rule parent_less)
  from inv have A: "\<And>c. 0 < c \<Longrightarrow> c < n \<Longrightarrow> t \<le> parent c \<Longrightarrow> c \<noteq> pos \<Longrightarrow>
      parent c \<noteq> pos \<Longrightarrow> \<not> lt (xs ! nat (parent c)) (xs ! nat c)"
    and B: "\<And>c. 0 < c \<Longrightarrow> c < n \<Longrightarrow> parent c = pos \<Longrightarrow> \<not> lt v (xs ! nat c)"
    unfolding promote_inv_def sift_inv_def by blast+
  show "\<not> lt (?ys ! nat (parent c)) (?ys ! nat c)"
  proof (cases "c = pos")
    case True
    then have ne: "parent c \<noteq> pos" using pcl by linarith
    have "pos \<noteq> t" using True c(3) pcl by linarith
    then have "\<not> lt (xs ! nat (parent pos)) v" using stop by blast
    then show ?thesis using True upd [OF c0] upd [OF pc0] ne by simp
  next
    case False
    show ?thesis
    proof (cases "parent c = pos")
      case True
      then show ?thesis using B [OF c(1,2) True] upd [OF c0] upd [OF pc0] False by simp
    next
      case F2: False
      then show ?thesis using A [OF c(1,2,3) False F2] upd [OF c0] upd [OF pc0] False by simp
    qed
  qed
qed


lemma promoteHeap_unfold:
  "promoteHeap lt xs t pos v =
     (if t < pos then
        rd xs (parent pos) \<bind> (\<lambda>p.
          if lt p v then wr xs pos p \<bind> (\<lambda>xs'. promoteHeap lt xs' t (parent pos) v)
          else wr xs pos v)
      else wr xs pos v)"
  unfolding parent_def by (subst promoteHeap.simps) (simp add: Let_def)

lemma mset_shift:
  assumes "i < length xs" "j < length xs" "i \<noteq> j"
  shows "mset (xs[i := xs ! j, j := v]) = mset (xs[i := v])"
proof -
  let ?zs = "xs[i := v]"
  have "mset (?zs[i := ?zs ! j, j := ?zs ! i]) = mset ?zs"
    using assms by (intro mset_swap) simp_all
  then show ?thesis using assms by simp
qed

lemma promoteHeap_basic:
  "0 \<le> t \<Longrightarrow> 0 \<le> pos \<Longrightarrow> pos < int (length xs) \<Longrightarrow>
     \<exists>ys. promoteHeap lt xs t pos v = Some ys \<and> length ys = length xs \<and>
          mset ys = mset (xs[nat pos := v]) \<and> (\<forall>i. pos < i \<longrightarrow> ys ! nat i = xs ! nat i)"
proof (induction lt xs t pos v rule: promoteHeap.induct)
  case (1 lt xs t pos v)
  note b = "1.prems"
  let ?p = "parent pos"
  show ?case
  proof (cases "t < pos \<and> lt (xs ! nat ?p) v")
    case True
    have pos0: "0 < pos" using True b(1) by linarith
    have p0: "0 \<le> ?p" using pos0 by (rule parent_nonneg)
    have plt: "?p < pos" using b(2) by (rule parent_less)
    have plen: "?p < int (length xs)" using plt b(3) by linarith
    let ?xs' = "xs[nat pos := xs ! nat ?p]"
    have rdp: "rd xs ?p = Some (xs ! nat ?p)" using p0 plen by (rule rd_Some)
    have wrp: "wr xs pos (xs ! nat ?p) = Some ?xs'" using b(2,3) by (rule wr_Some)
    have plen': "?p < int (length ?xs')" using plen by simp
    have "\<exists>ys. promoteHeap lt ?xs' t ?p v = Some ys \<and> length ys = length ?xs' \<and>
          mset ys = mset (?xs'[nat ?p := v]) \<and> (\<forall>i. ?p < i \<longrightarrow> ys ! nat i = ?xs' ! nat i)"
      using True rdp wrp b(1) p0 plen'
      by (intro "1.IH" [of ?p "xs ! nat ?p" ?xs']) (simp_all add: parent_def)
    then obtain ys where ys: "promoteHeap lt ?xs' t ?p v = Some ys" "length ys = length ?xs'"
      "mset ys = mset (?xs'[nat ?p := v])" "\<And>i. ?p < i \<Longrightarrow> ys ! nat i = ?xs' ! nat i"
      by blast
    have eq: "promoteHeap lt xs t pos v = Some ys"
      using True rdp wrp ys(1) by (subst promoteHeap_unfold) simp
    have ne: "nat pos \<noteq> nat ?p" using plt p0 by linarith
    have m: "mset ys = mset (xs[nat pos := v])"
      unfolding ys(3) using b(2,3) p0 plen ne by (intro mset_shift) simp_all
    have fr: "ys ! nat i = xs ! nat i" if "pos < i" for i
    proof -
      have "ys ! nat i = ?xs' ! nat i" using that plt by (intro ys(4)) linarith
      moreover have "nat i \<noteq> nat pos" using that b(2) by linarith
      ultimately show ?thesis by simp
    qed
    show ?thesis using eq ys(2) m fr by simp
  next
    case False
    have "promoteHeap lt xs t pos v = Some (xs[nat pos := v])"
    proof (cases "t < pos")
      case True
      have pos0: "0 < pos" using True b(1) by linarith
      have p0: "0 \<le> ?p" using pos0 by (rule parent_nonneg)
      have plt: "?p < pos" using b(2) by (rule parent_less)
      have plen: "?p < int (length xs)" using plt b(3) by linarith
      have rdp: "rd xs ?p = Some (xs ! nat ?p)" using p0 plen by (rule rd_Some)
      show ?thesis
        using True False rdp wr_Some [OF b(2,3)] by (subst promoteHeap_unfold) simp
    next
      case F: False
      then show ?thesis using wr_Some [OF b(2,3)] by (subst promoteHeap_unfold) simp
    qed
    moreover have "(xs[nat pos := v]) ! nat i = xs ! nat i" if "pos < i" for i
    proof -
      have "nat i \<noteq> nat pos" using that b(2) by linarith
      then show ?thesis by simp
    qed
    ultimately show ?thesis by simp
  qed
qed

lemma promoteHeap_stop:
  assumes "0 \<le> t" "0 \<le> pos" "pos < int (length xs)"
    and "pos \<le> t \<or> \<not> lt (xs ! nat (parent pos)) v"
  shows "promoteHeap lt xs t pos v = Some (xs[nat pos := v])"
proof (cases "t < pos")
  case True
  have pos0: "0 < pos" using True assms(1) by linarith
  have p0: "0 \<le> parent pos" using pos0 by (rule parent_nonneg)
  have plt: "parent pos < pos" using assms(2) by (rule parent_less)
  have plen: "parent pos < int (length xs)" using plt assms(3) by linarith
  have rdp: "rd xs (parent pos) = Some (xs ! nat (parent pos))" using p0 plen by (rule rd_Some)
  show ?thesis
    using True assms(4) rdp wr_Some [OF assms(2,3)] by (subst promoteHeap_unfold) simp
next
  case False
  then show ?thesis using wr_Some [OF assms(2,3)] by (subst promoteHeap_unfold) simp
qed

lemma promoteHeap_heap:
  "strict_weak_order lt \<Longrightarrow> 0 \<le> t \<Longrightarrow> below t pos \<Longrightarrow> pos < n \<Longrightarrow> n \<le> int (length xs) \<Longrightarrow>
     promote_inv lt xs n t pos v \<Longrightarrow> promoteHeap lt xs t pos v = Some ys \<Longrightarrow>
     heap_from lt ys n t"
proof (induction lt xs t pos v rule: promoteHeap.induct)
  case (1 lt xs t pos v)
  note swo = "1.prems"(1) and t0 = "1.prems"(2) and bl = "1.prems"(3)
    and b = "1.prems"(4,5) and inv = "1.prems"(6) and run = "1.prems"(7)
  let ?p = "parent pos"
  have tpos: "t \<le> pos" using bl t0 by (rule below_ge)
  have pos0: "0 \<le> pos" using tpos t0 by linarith
  have len: "pos < int (length xs)" using b by linarith
  show ?case
  proof (cases "t < pos \<and> lt (xs ! nat ?p) v")
    case True
    then have tl: "t < pos" and lt: "lt (xs ! nat ?p) v" by blast+
    have blp: "below t ?p" using bl t0 tl by (rule below_parent)
    have tp: "t \<le> ?p" using bl t0 tl by (rule below_parent)
    have p0: "0 \<le> ?p" using tp t0 by linarith
    have plt: "?p < pos" using pos0 by (rule parent_less)
    have plen: "?p < int (length xs)" using plt len by linarith
    let ?xs' = "xs[nat pos := xs ! nat ?p]"
    have rdp: "rd xs ?p = Some (xs ! nat ?p)" using p0 plen by (rule rd_Some)
    have wrp: "wr xs pos (xs ! nat ?p) = Some ?xs'" using pos0 len by (rule wr_Some)
    have run': "promoteHeap lt ?xs' t ?p v = Some ys"
      using run True rdp wrp by (subst (asm) promoteHeap_unfold) simp
    have inv': "promote_inv lt ?xs' n t ?p v"
      using swo t0 tl b(1) b(2) bl inv lt by (rule promote_inv_step)
    have pn: "?p < n" using plt b(1) by linarith
    have n': "n \<le> int (length ?xs')" using b(2) by simp
    show ?thesis
      using True rdp wrp swo t0 blp pn n' inv' run'
      by (intro "1.IH" [of ?p "xs ! nat ?p" ?xs']) (simp_all add: parent_def)
  next
    case False
    then have stop: "pos \<le> t \<or> \<not> lt (xs ! nat ?p) v" by auto
    have "promoteHeap lt xs t pos v = Some (xs[nat pos := v])"
      using t0 pos0 len stop by (rule promoteHeap_stop)
    then have ys: "ys = xs[nat pos := v]" using run by simp
    have stop': "pos = t \<or> \<not> lt (xs ! nat ?p) v" using stop tpos by auto
    show ?thesis unfolding ys
      using t0 tpos b(1) b(2) inv stop' by (rule promote_inv_place)
  qed
qed


subsection \<open>adjustHeap: the way down, then promoteHeap\<close>

lemma sift_inv_step:
  assumes swo: "strict_weak_order lt"
    and b: "0 \<le> t" "t \<le> pos" "c' < n" "n \<le> int (length xs)"
    and pc: "parent c' = pos"
    and inv: "sift_inv lt xs n t pos"
    and dom: "\<And>s. 0 < s \<Longrightarrow> s < n \<Longrightarrow> parent s = pos \<Longrightarrow> \<not> lt (xs ! nat c') (xs ! nat s)"
  shows "sift_inv lt (xs[nat pos := xs ! nat c']) n t c'"
proof -
  let ?ys = "xs[nat pos := xs ! nat c']"
  have pos0: "0 \<le> pos" using b(1,2) by linarith
  have c'pos: "pos < c'" using pc pos0 unfolding parent_eq_iff by linarith
  have c'0: "0 < c'" using c'pos pos0 by linarith
  have len: "pos < int (length xs)" using c'pos b(3,4) by linarith
  have upd: "?ys ! nat j = (if j = pos then xs ! nat c' else xs ! nat j)" if "0 \<le> j" for j
    using pos0 that len by (rule nth_upd_int)
  have updne: "?ys ! nat j = xs ! nat j" if "0 \<le> j" "j \<noteq> pos" for j
    using upd [OF that(1)] that(2) by simp
  have updpos: "?ys ! nat pos = xs ! nat c'"
    using upd [OF pos0] by simp
  from inv have A: "\<And>c. 0 < c \<Longrightarrow> c < n \<Longrightarrow> t \<le> parent c \<Longrightarrow> c \<noteq> pos \<Longrightarrow>
      parent c \<noteq> pos \<Longrightarrow> \<not> lt (xs ! nat (parent c)) (xs ! nat c)"
    and C: "\<And>c. 0 < c \<Longrightarrow> c < n \<Longrightarrow> parent c = pos \<Longrightarrow> t < pos \<Longrightarrow>
      \<not> lt (xs ! nat (parent pos)) (xs ! nat c)"
    unfolding sift_inv_def by blast+
  have a': "\<not> lt (?ys ! nat (parent c)) (?ys ! nat c)"
    if c: "0 < c" "c < n" "t \<le> parent c" "c \<noteq> c'" "parent c \<noteq> c'" for c
  proof -
    have c0: "0 \<le> c" using c(1) by linarith
    have pc0: "0 \<le> parent c" using c(1) by (rule parent_nonneg)
    have pcl: "parent c < c" using c0 by (rule parent_less)
    show ?thesis
    proof (cases "c = pos")
      case True
      have tl: "t < pos" using c(3) pcl True by linarith
      have ne: "parent c \<noteq> pos" using pcl True by linarith
      have "?ys ! nat (parent c) = xs ! nat (parent pos)"
        using updne [OF pc0 ne] True by simp
      then show ?thesis using C [OF c'0 b(3) pc tl] updpos True by simp
    next
      case False
      have yc: "?ys ! nat c = xs ! nat c" using c0 False by (rule updne)
      show ?thesis
      proof (cases "parent c = pos")
        case True
        then show ?thesis using dom [OF c(1,2) True] yc updpos by simp
      next
        case F2: False
        have "?ys ! nat (parent c) = xs ! nat (parent c)" using pc0 F2 by (rule updne)
        then show ?thesis using A [OF c(1,2,3) False F2] yc by simp
      qed
    qed
  qed
  have c2: "\<not> lt (?ys ! nat (parent c')) (?ys ! nat c)"
    if c: "0 < c" "c < n" "parent c = c'" "t < c'" for c
  proof -
    have c0: "0 \<le> c" using c(1) by linarith
    have cl: "c' < c" using parent_less [OF c0] c(3) by simp
    have cne: "c \<noteq> pos" using cl c'pos by linarith
    have pne: "parent c \<noteq> pos" using c(3) c'pos by linarith
    have tc: "t \<le> parent c" using c(3,4) by linarith
    have "?ys ! nat c = xs ! nat c" using c0 cne by (rule updne)
    then show ?thesis using A [OF c(1,2) tc cne pne] updpos pc c(3) by simp
  qed
  show ?thesis
    unfolding sift_inv_def using a' c2 by blast
qed

lemma sift_inv_leaf:
  assumes "sift_inv lt xs n t pos" "n \<le> 2 * pos + 1"
  shows "promote_inv lt xs n t pos v"
proof -
  have "\<not> (c < n \<and> parent c = pos)" for c
    using assms(2) unfolding parent_eq_iff by linarith
  then show ?thesis using assms(1) unfolding promote_inv_def by blast
qed

lemma adjustHeap_loop_exit:
  "n \<le> cp \<Longrightarrow> adjustHeap_loop Unbounded lt xs n pos cp = Some (xs, pos, cp)"
  by (subst adjustHeap_loop.simps) simp

lemma adjustHeap_loop_step_gen:
  assumes "0 \<le> pos" "pos < int (length xs)" "0 < cp" "cp < n" "n \<le> int (length xs)"
    and "cp' = (if lt (xs ! nat cp) (xs ! nat (cp - 1)) then cp - 1 else cp)"
  shows "adjustHeap_loop Unbounded lt xs n pos cp =
           adjustHeap_loop Unbounded lt (xs[nat pos := xs ! nat cp']) n cp' (2 * cp' + 2)"
proof -
  have r: "rd xs cp = Some (xs ! nat cp)"
    using assms(3-5) by (intro rd_Some) linarith+
  have l: "rd xs (cp - 1) = Some (xs ! nat (cp - 1))"
    using assms(3-5) by (intro rd_Some) linarith+
  have w: "wr xs pos x = Some (xs[nat pos := x])" for x
    using assms(1,2) by (rule wr_Some)
  show ?thesis
    using assms(4) r l w unfolding assms(6)
    by (subst adjustHeap_loop.simps) (simp add: Let_def)
qed

lemma adjustHeap_loop_step:
  assumes "0 \<le> pos" "2 * pos + 2 < n" "n \<le> int (length xs)"
    and "cp' = (if lt (xs ! nat (2 * pos + 2)) (xs ! nat (2 * pos + 1)) then 2 * pos + 1
                else 2 * pos + 2)"
  shows "adjustHeap_loop Unbounded lt xs n pos (2 * pos + 2) =
           adjustHeap_loop Unbounded lt (xs[nat pos := xs ! nat cp']) n cp' (2 * cp' + 2)"
proof (rule adjustHeap_loop_step_gen)
  have e: "2 * pos + 2 - 1 = 2 * pos + 1" by simp
  show "cp' = (if lt (xs ! nat (2 * pos + 2)) (xs ! nat (2 * pos + 2 - 1)) then 2 * pos + 2 - 1
                else 2 * pos + 2)"
    unfolding e by (rule assms(4))
qed (use assms(1-3) in linarith)+

lemma adjustHeap_loop_basic:
  "0 \<le> pos \<Longrightarrow> pos < int (length xs) \<Longrightarrow> n \<le> int (length xs) \<Longrightarrow>
     \<exists>xs1 pos1. adjustHeap_loop Unbounded lt xs n pos (2 * pos + 2) = Some (xs1, pos1, 2 * pos1 + 2) \<and>
        n \<le> 2 * pos1 + 2 \<and> pos \<le> pos1 \<and> (pos1 < n \<or> pos1 = pos) \<and>
        length xs1 = length xs \<and>
        (\<forall>v. mset (xs1[nat pos1 := v]) = mset (xs[nat pos := v])) \<and>
        (\<forall>i. n \<le> i \<and> i \<noteq> pos \<longrightarrow> xs1 ! nat i = xs ! nat i)"
proof (induction "nat (n - pos)" arbitrary: pos xs rule: less_induct)
  case less
  note b = less.prems
  show ?case
  proof (cases "2 * pos + 2 < n")
    case True
    define cp' where "cp' = (if lt (xs ! nat (2 * pos + 2)) (xs ! nat (2 * pos + 1))
                              then 2 * pos + 1 else 2 * pos + 2)"
    let ?xs' = "xs[nat pos := xs ! nat cp']"
    have cp: "pos < cp'" "cp' < n" "0 \<le> cp'" using True b(1) by (auto simp: cp'_def)
    have cplen: "cp' < int (length xs)" using cp(2) b(3) by linarith
    have step: "adjustHeap_loop Unbounded lt xs n pos (2 * pos + 2) =
                adjustHeap_loop Unbounded lt ?xs' n cp' (2 * cp' + 2)"
      using b(1) True b(3) cp'_def by (rule adjustHeap_loop_step)
    have m: "nat (n - cp') < nat (n - pos)" using cp by linarith
    have "\<exists>xs1 pos1. adjustHeap_loop Unbounded lt ?xs' n cp' (2 * cp' + 2) = Some (xs1, pos1, 2 * pos1 + 2) \<and>
        n \<le> 2 * pos1 + 2 \<and> cp' \<le> pos1 \<and> (pos1 < n \<or> pos1 = cp') \<and>
        length xs1 = length ?xs' \<and>
        (\<forall>v. mset (xs1[nat pos1 := v]) = mset (?xs'[nat cp' := v])) \<and>
        (\<forall>i. n \<le> i \<and> i \<noteq> cp' \<longrightarrow> xs1 ! nat i = ?xs' ! nat i)"
      using m cp(3) cplen b(3) by (intro less.hyps) simp_all
    then obtain xs1 pos1 where r:
      "adjustHeap_loop Unbounded lt ?xs' n cp' (2 * cp' + 2) = Some (xs1, pos1, 2 * pos1 + 2)"
      "n \<le> 2 * pos1 + 2" "cp' \<le> pos1" "pos1 < n \<or> pos1 = cp'" "length xs1 = length ?xs'"
      "\<And>v. mset (xs1[nat pos1 := v]) = mset (?xs'[nat cp' := v])"
      "\<And>i. n \<le> i \<Longrightarrow> i \<noteq> cp' \<Longrightarrow> xs1 ! nat i = ?xs' ! nat i"
      by blast
    have ne: "nat pos \<noteq> nat cp'" using cp b(1) by linarith
    have ms: "mset (xs1[nat pos1 := v]) = mset (xs[nat pos := v])" for v
      unfolding r(6) using b(1,2) cp(3) cplen ne by (intro mset_shift) simp_all
    have fr: "xs1 ! nat i = xs ! nat i" if "n \<le> i" "i \<noteq> pos" for i
    proof -
      have "i \<noteq> cp'" using that(1) cp(2) by linarith
      then have "xs1 ! nat i = ?xs' ! nat i" using that(1) by (intro r(7))
      moreover have "nat i \<noteq> nat pos" using that b(1) True by linarith
      ultimately show ?thesis by simp
    qed
    have p1: "pos \<le> pos1" "pos1 < n \<or> pos1 = pos" using r(3,4) cp by linarith+
    show ?thesis
      unfolding step using r(1,2,5) p1 ms fr by simp
  next
    case False
    then have "adjustHeap_loop Unbounded lt xs n pos (2 * pos + 2) = Some (xs, pos, 2 * pos + 2)"
      by (intro adjustHeap_loop_exit) simp
    then show ?thesis using False by simp
  qed
qed

lemma adjustHeap_loop_inv:
  "strict_weak_order lt \<Longrightarrow> 0 \<le> t \<Longrightarrow> below t pos \<Longrightarrow> n \<le> int (length xs) \<Longrightarrow>
     sift_inv lt xs n t pos \<Longrightarrow>
     adjustHeap_loop Unbounded lt xs n pos (2 * pos + 2) = Some (xs1, pos1, cp1) \<Longrightarrow>
     sift_inv lt xs1 n t pos1 \<and> below t pos1"
proof (induction "nat (n - pos)" arbitrary: pos xs rule: less_induct)
  case less
  note swo = less.prems(1) and t0 = less.prems(2) and bl = less.prems(3)
    and len = less.prems(4) and inv = less.prems(5) and run = less.prems(6)
  have tpos: "t \<le> pos" using bl t0 by (rule below_ge)
  have pos0: "0 \<le> pos" using tpos t0 by linarith
  show ?case
  proof (cases "2 * pos + 2 < n")
    case True
    define cp' where "cp' = (if lt (xs ! nat (2 * pos + 2)) (xs ! nat (2 * pos + 1))
                              then 2 * pos + 1 else 2 * pos + 2)"
    let ?xs' = "xs[nat pos := xs ! nat cp']"
    have cp: "pos < cp'" "cp' < n" "0 \<le> cp'" using True pos0 by (auto simp: cp'_def)
    have pc: "parent cp' = pos" unfolding parent_eq_iff by (auto simp: cp'_def)
    have step: "adjustHeap_loop Unbounded lt xs n pos (2 * pos + 2) =
                adjustHeap_loop Unbounded lt ?xs' n cp' (2 * cp' + 2)"
      using pos0 True len cp'_def by (rule adjustHeap_loop_step)
    have dom: "\<not> lt (xs ! nat cp') (xs ! nat s)" if "0 < s" "s < n" "parent s = pos" for s
    proof -
      have "s = 2 * pos + 1 \<or> s = 2 * pos + 2" using that(3) unfolding parent_eq_iff .
      then show ?thesis
        using swo_irrefl [OF swo] swo_asym [OF swo] by (auto simp: cp'_def)
    qed
    have inv': "sift_inv lt ?xs' n t cp'"
      using swo t0 tpos cp(2) len pc inv dom by (rule sift_inv_step)
    have bl': "below t cp'" using bl t0 pc by (rule below_child)
    have m: "nat (n - cp') < nat (n - pos)" using cp by linarith
    have len': "n \<le> int (length ?xs')" using len by simp
    have run': "adjustHeap_loop Unbounded lt ?xs' n cp' (2 * cp' + 2) = Some (xs1, pos1, cp1)"
      using run unfolding step .
    show ?thesis
      using m swo t0 bl' len' inv' run' by (rule less.hyps)
  next
    case False
    then have "adjustHeap_loop Unbounded lt xs n pos (2 * pos + 2) = Some (xs, pos, 2 * pos + 2)"
      by (intro adjustHeap_loop_exit) simp
    then show ?thesis using run inv bl by simp
  qed
qed

lemma adjustHeap_eq:
  assumes "adjustHeap_loop Unbounded lt xs n pos (2 * pos + 2) = Some (xs1, pos1, cp1)"
  shows "adjustHeap Unbounded lt xs t n pos v =
           (if cp1 = n then
              rd xs1 (cp1 - 1) \<bind> (\<lambda>c. wr xs1 pos1 c \<bind> (\<lambda>xs2. promoteHeap lt xs2 t (cp1 - 1) v))
            else promoteHeap lt xs1 t pos1 v)"
  by (simp add: adjustHeap_def assms)

lemma adjustHeap_down:
  assumes b: "0 \<le> pos" "pos < int (length xs)" "n \<le> int (length xs)"
  obtains xs' pos' where
    "\<And>t v. adjustHeap Unbounded lt xs t n pos v = promoteHeap lt xs' t pos' v"
    "length xs' = length xs" "pos \<le> pos'" "pos' < n \<or> pos' = pos" "n \<le> 2 * pos' + 1"
    "\<And>v. mset (xs'[nat pos' := v]) = mset (xs[nat pos := v])"
    "\<And>i. n \<le> i \<Longrightarrow> i \<noteq> pos \<Longrightarrow> xs' ! nat i = xs ! nat i"
    "\<And>t. strict_weak_order lt \<Longrightarrow> 0 \<le> t \<Longrightarrow> below t pos \<Longrightarrow> sift_inv lt xs n t pos \<Longrightarrow>
         sift_inv lt xs' n t pos' \<and> below t pos'"
proof -
  from adjustHeap_loop_basic [OF b, of lt]
  obtain xs1 pos1 where r:
    "adjustHeap_loop Unbounded lt xs n pos (2 * pos + 2) = Some (xs1, pos1, 2 * pos1 + 2)"
    "n \<le> 2 * pos1 + 2" "pos \<le> pos1" "pos1 < n \<or> pos1 = pos" "length xs1 = length xs"
    "\<And>v. mset (xs1[nat pos1 := v]) = mset (xs[nat pos := v])"
    "\<And>i. n \<le> i \<Longrightarrow> i \<noteq> pos \<Longrightarrow> xs1 ! nat i = xs ! nat i"
    by blast
  define cp1 where "cp1 = 2 * pos1 + 2"
  have run: "adjustHeap_loop Unbounded lt xs n pos (2 * pos + 2) = Some (xs1, pos1, cp1)"
    using r(1) unfolding cp1_def .
  have pos1: "0 \<le> pos1" using r(3) b(1) by linarith
  have len1: "pos1 < int (length xs1)" using r(4,5) b(2,3) by auto
  have inv1: "sift_inv lt xs1 n t pos1 \<and> below t pos1"
    if "strict_weak_order lt" "0 \<le> t" "below t pos" "sift_inv lt xs n t pos" for t
    using that(1,2,3) b(3) that(4) run by (rule adjustHeap_loop_inv)
  show thesis
  proof (cases "cp1 = n")
    case True
    let ?c = "cp1 - 1"
    let ?xs' = "xs1[nat pos1 := xs1 ! nat ?c]"
    have c: "0 < ?c" "?c < n" "pos1 < ?c" "n \<le> 2 * ?c + 1"
      using True pos1 unfolding cp1_def by simp_all
    have clen: "?c < int (length xs1)" using c(2) b(3) r(5) by linarith
    have pc: "parent ?c = pos1" unfolding parent_eq_iff cp1_def by simp
    have rdc: "rd xs1 ?c = Some (xs1 ! nat ?c)" using c(1) clen by (intro rd_Some) linarith+
    have wrc: "wr xs1 pos1 (xs1 ! nat ?c) = Some ?xs'" using pos1 len1 by (rule wr_Some)
    have 1: "adjustHeap Unbounded lt xs t n pos v = promoteHeap lt ?xs' t ?c v" for t v
      using True rdc wrc by (simp add: adjustHeap_eq [OF run])
    have ne: "nat pos1 \<noteq> nat ?c" using c(3) pos1 by linarith
    have 6: "mset (?xs'[nat ?c := v]) = mset (xs[nat pos := v])" for v
    proof -
      have "mset (?xs'[nat ?c := v]) = mset (xs1[nat pos1 := v])"
        using pos1 len1 c(1) clen ne by (intro mset_shift) simp_all
      then show ?thesis using r(6) by simp
    qed
    have 7: "?xs' ! nat i = xs ! nat i" if "n \<le> i" "i \<noteq> pos" for i
    proof -
      have "nat i \<noteq> nat pos1" using that(1) c(2,3) pos1 by linarith
      then have "?xs' ! nat i = xs1 ! nat i" by simp
      then show ?thesis using r(7) [OF that] by simp
    qed
    have 8: "sift_inv lt ?xs' n t ?c \<and> below t ?c"
      if h: "strict_weak_order lt" "0 \<le> t" "below t pos" "sift_inv lt xs n t pos" for t
    proof -
      have i1: "sift_inv lt xs1 n t pos1" and b1: "below t pos1" using inv1 [OF h] by blast+
      have tp: "t \<le> pos1" using b1 h(2) by (rule below_ge)
      have dom: "\<not> lt (xs1 ! nat ?c) (xs1 ! nat s)" if "0 < s" "s < n" "parent s = pos1" for s
      proof -
        have "s = ?c" using that(2,3) True unfolding parent_eq_iff cp1_def by linarith
        then show ?thesis using swo_irrefl [OF h(1)] by simp
      qed
      have n1: "n \<le> int (length xs1)" using b(3) r(5) by simp
      have "sift_inv lt ?xs' n t ?c"
        using h(1,2) tp c(2) n1 pc i1 dom by (rule sift_inv_step)
      moreover have "below t ?c" using b1 h(2) pc by (rule below_child)
      ultimately show ?thesis by blast
    qed
    have 3: "pos \<le> ?c" using r(3) c(3) by linarith
    have 2: "length ?xs' = length xs" using r(5) by simp
    have 4: "?c < n \<or> ?c = pos" using c(2) by blast
    show ?thesis
      by (rule that [of ?xs' ?c, OF 1 2 3 4 c(4) 6 7 8])
  next
    case False
    have 1: "adjustHeap Unbounded lt xs t n pos v = promoteHeap lt xs1 t pos1 v" for t v
      using False by (simp add: adjustHeap_eq [OF run])
    have 5: "n \<le> 2 * pos1 + 1" using False r(2) unfolding cp1_def by linarith
    show ?thesis
      by (rule that [of xs1 pos1, OF 1 r(5) r(3) r(4) 5 r(6) r(7) inv1])
  qed
qed

lemma adjustHeap_basic:
  assumes "0 \<le> t" "0 \<le> pos" "pos < int (length xs)" "n \<le> int (length xs)"
  shows "\<exists>ys. adjustHeap Unbounded lt xs t n pos v = Some ys \<and> length ys = length xs \<and>
           mset ys = mset (xs[nat pos := v]) \<and>
           (\<forall>i. n \<le> i \<and> pos < i \<longrightarrow> ys ! nat i = xs ! nat i)"
proof (rule adjustHeap_down [OF assms(2-4), of lt])
  fix xs' pos'
  assume d1: "\<And>t v. adjustHeap Unbounded lt xs t n pos v = promoteHeap lt xs' t pos' v"
    and d2: "length xs' = length xs" and d3: "pos \<le> pos'" and d4: "pos' < n \<or> pos' = pos"
    and d5: "n \<le> 2 * pos' + 1"
    and d6: "\<And>v. mset (xs'[nat pos' := v]) = mset (xs[nat pos := v])"
    and d7: "\<And>i. n \<le> i \<Longrightarrow> i \<noteq> pos \<Longrightarrow> xs' ! nat i = xs ! nat i"
    and d8: "\<And>t. strict_weak_order lt \<Longrightarrow> 0 \<le> t \<Longrightarrow> below t pos \<Longrightarrow> sift_inv lt xs n t pos \<Longrightarrow>
         sift_inv lt xs' n t pos' \<and> below t pos'"
  have p0: "0 \<le> pos'" using d3 assms(2) by linarith
  have plen: "pos' < int (length xs')" using d4 assms(3,4) unfolding d2 by linarith
  from promoteHeap_basic [OF assms(1) p0 plen, of lt v]
  obtain ys where ys: "promoteHeap lt xs' t pos' v = Some ys" "length ys = length xs'"
    "mset ys = mset (xs'[nat pos' := v])" "\<And>i. pos' < i \<Longrightarrow> ys ! nat i = xs' ! nat i"
    by blast
  have fr: "ys ! nat i = xs ! nat i" if "n \<le> i" "pos < i" for i
  proof -
    have "pos' < i" using that d4 by linarith
    then have "ys ! nat i = xs' ! nat i" by (rule ys(4))
    moreover have "i \<noteq> pos" using that(2) by linarith
    ultimately show ?thesis using d7 [OF that(1)] by simp
  qed
  have 1: "adjustHeap Unbounded lt xs t n pos v = Some ys" using d1 [of t v] ys(1) by simp
  have 2: "length ys = length xs" using ys(2) d2 by simp
  have 3: "mset ys = mset (xs[nat pos := v])" using ys(3) d6 [of v] by simp
  show ?thesis using 1 2 3 fr by blast
qed

lemma adjustHeap_heap:
  assumes swo: "strict_weak_order lt" and t0: "0 \<le> t" and bl: "below t pos"
    and b: "pos < n" "n \<le> int (length xs)"
    and inv: "sift_inv lt xs n t pos"
    and run: "adjustHeap Unbounded lt xs t n pos v = Some ys"
  shows "heap_from lt ys n t"
proof -
  have tpos: "t \<le> pos" using bl t0 by (rule below_ge)
  have pos0: "0 \<le> pos" using tpos t0 by linarith
  have len: "pos < int (length xs)" using b by linarith
  show ?thesis
  proof (rule adjustHeap_down [OF pos0 len b(2), of lt])
    fix xs' pos'
    assume d1: "\<And>t v. adjustHeap Unbounded lt xs t n pos v = promoteHeap lt xs' t pos' v"
      and d2: "length xs' = length xs" and d3: "pos \<le> pos'" and d4: "pos' < n \<or> pos' = pos"
      and d5: "n \<le> 2 * pos' + 1"
      and d6: "\<And>v. mset (xs'[nat pos' := v]) = mset (xs[nat pos := v])"
      and d7: "\<And>i. n \<le> i \<Longrightarrow> i \<noteq> pos \<Longrightarrow> xs' ! nat i = xs ! nat i"
      and d8: "\<And>t. strict_weak_order lt \<Longrightarrow> 0 \<le> t \<Longrightarrow> below t pos \<Longrightarrow> sift_inv lt xs n t pos \<Longrightarrow>
           sift_inv lt xs' n t pos' \<and> below t pos'"
    have i': "sift_inv lt xs' n t pos'" and b': "below t pos'"
      using d8 [OF swo t0 bl inv] by blast+
    have pi: "promote_inv lt xs' n t pos' v" using i' d5 by (rule sift_inv_leaf)
    have pn: "pos' < n" using d4 b(1) by linarith
    have n': "n \<le> int (length xs')" using b(2) d2 by simp
    have run': "promoteHeap lt xs' t pos' v = Some ys" using run d1 by simp
    show ?thesis using swo t0 b' pn n' pi run' by (rule promoteHeap_heap)
  qed
qed

lemma adjustHeap_outside:
  assumes "0 \<le> pos" "n \<le> pos"
  shows "adjustHeap Unbounded lt xs t n pos v = promoteHeap lt xs t pos v"
proof -
  have "adjustHeap_loop Unbounded lt xs n pos (2 * pos + 2) = Some (xs, pos, 2 * pos + 2)"
    using assms by (intro adjustHeap_loop_exit) linarith
  moreover have "2 * pos + 2 \<noteq> n" using assms by linarith
  ultimately show ?thesis by (simp add: adjustHeap_eq)
qed

subsection \<open>adjustHeap at a Distance type that holds the child indices\<close>





subsection \<open>isHeap\<close>

lemma isHeap_until_loop_spec:
  "0 < child \<Longrightarrow> lastPos \<le> int (length xs) \<Longrightarrow>
     \<exists>r. isHeap_until_loop lt xs lastPos (parent child) child ((child - 1) mod 2) = Some r \<and>
       ((r = lastPos \<and>
           (\<forall>c. child \<le> c \<and> c < lastPos \<longrightarrow> \<not> lt (xs ! nat (parent c)) (xs ! nat c))) \<or>
        (child \<le> r \<and> r < lastPos \<and> lt (xs ! nat (parent r)) (xs ! nat r) \<and>
           (\<forall>c. child \<le> c \<and> c < r \<longrightarrow> \<not> lt (xs ! nat (parent c)) (xs ! nat c))))"
proof (induction "nat (lastPos - child)" arbitrary: child rule: less_induct)
  case less
  note c0 = less.prems(1) and len = less.prems(2)
  show ?case
  proof (cases "child < lastPos")
    case False
    then have "isHeap_until_loop lt xs lastPos (parent child) child ((child - 1) mod 2) =
        Some lastPos"
      by (subst isHeap_until_loop.simps) simp
    then show ?thesis using False by auto
  next
    case True
    have p0: "0 \<le> parent child" using c0 by (rule parent_nonneg)
    have pl: "parent child < child" using c0 by (intro parent_less) linarith
    have rp: "rd xs (parent child) = Some (xs ! nat (parent child))"
      using p0 pl True len by (intro rd_Some) linarith+
    have rc: "rd xs child = Some (xs ! nat child)"
      using c0 True len by (intro rd_Some) linarith+
    show ?thesis
    proof (cases "lt (xs ! nat (parent child)) (xs ! nat child)")
      case T2: True
      have "isHeap_until_loop lt xs lastPos (parent child) child ((child - 1) mod 2) =
          Some child"
        using True rp rc T2 by (subst isHeap_until_loop.simps) simp
      then show ?thesis using True T2 by auto
    next
      case False
      have e1: "parent child + (child - 1) mod 2 = parent (child + 1)"
        unfolding parent_def by presburger
      have e2: "xor ((child - 1) mod 2) 1 = (child + 1 - 1) mod 2"
      proof (cases "(child - 1) mod 2 = 0")
        case True
        moreover from True have "(child + 1 - 1) mod 2 = 1" by presburger
        ultimately show ?thesis by simp
      next
        case F: False
        then have a: "(child - 1) mod 2 = 1" by presburger
        then have "(child + 1 - 1) mod 2 = 0" by presburger
        then show ?thesis using a by simp
      qed
      have step: "isHeap_until_loop lt xs lastPos (parent child) child ((child - 1) mod 2) =
          isHeap_until_loop lt xs lastPos (parent (child + 1)) (child + 1) ((child + 1 - 1) mod 2)"
        using True rp rc False
        by (subst isHeap_until_loop.simps) (simp only: bind.bind_lunit if_True if_False e1 e2)
      have m: "nat (lastPos - (child + 1)) < nat (lastPos - child)" using True by linarith
      have c1: "0 < child + 1" using c0 by linarith
      from less.hyps [OF m c1 len]
      obtain r where r: "isHeap_until_loop lt xs lastPos (parent (child + 1)) (child + 1)
             ((child + 1 - 1) mod 2) = Some r"
        "(r = lastPos \<and>
           (\<forall>c. child + 1 \<le> c \<and> c < lastPos \<longrightarrow> \<not> lt (xs ! nat (parent c)) (xs ! nat c))) \<or>
         (child + 1 \<le> r \<and> r < lastPos \<and> lt (xs ! nat (parent r)) (xs ! nat r) \<and>
           (\<forall>c. child + 1 \<le> c \<and> c < r \<longrightarrow> \<not> lt (xs ! nat (parent c)) (xs ! nat c)))"
        by blast
      have ext: "\<not> lt (xs ! nat (parent c)) (xs ! nat c)"
        if "child \<le> c" "c < b" "\<forall>c. child + 1 \<le> c \<and> c < b \<longrightarrow> \<not> lt (xs ! nat (parent c)) (xs ! nat c)"
        for c b
      proof (cases "c = child")
        case True
        then show ?thesis using False by simp
      next
        case F: False
        then have "child + 1 \<le> c" using that(1) by linarith
        then show ?thesis using that(2,3) by blast
      qed
      from r(2) show ?thesis
      proof
        assume a: "r = lastPos \<and>
           (\<forall>c. child + 1 \<le> c \<and> c < lastPos \<longrightarrow> \<not> lt (xs ! nat (parent c)) (xs ! nat c))"
        then have "\<forall>c. child \<le> c \<and> c < lastPos \<longrightarrow> \<not> lt (xs ! nat (parent c)) (xs ! nat c)"
          using ext by blast
        then show ?thesis unfolding step using r(1) a by blast
      next
        assume a: "child + 1 \<le> r \<and> r < lastPos \<and> lt (xs ! nat (parent r)) (xs ! nat r) \<and>
           (\<forall>c. child + 1 \<le> c \<and> c < r \<longrightarrow> \<not> lt (xs ! nat (parent c)) (xs ! nat c))"
        then have "\<forall>c. child \<le> c \<and> c < r \<longrightarrow> \<not> lt (xs ! nat (parent c)) (xs ! nat c)"
          using ext by blast
        moreover have "child \<le> r" using a by linarith
        ultimately show ?thesis unfolding step using r(1) a by blast
      qed
    qed
  qed
qed

lemma isHeap_until_spec:
  assumes "lastPos \<le> int (length xs)"
  shows "\<exists>r. isHeap_until lt xs lastPos = Some r \<and>
       ((r = lastPos \<and>
           (\<forall>c. 0 < c \<and> c < lastPos \<longrightarrow> \<not> lt (xs ! nat (parent c)) (xs ! nat c))) \<or>
        (0 < r \<and> r < lastPos \<and> lt (xs ! nat (parent r)) (xs ! nat r) \<and>
           (\<forall>c. 0 < c \<and> c < r \<longrightarrow> \<not> lt (xs ! nat (parent c)) (xs ! nat c))))"
proof -
  have e: "parent 1 = 0" "(1 - 1) mod 2 = (0::int)" "0 + 1 = (1::int)"
    by (simp_all add: parent_def)
  have i: "(0 < c) = (1 \<le> c)" for c :: int by linarith
  from isHeap_until_loop_spec [of 1 lastPos xs lt] assms
  show ?thesis unfolding isHeap_until_def e i by simp
qed

lemma isHeap_heap_from:
  assumes "lastPos \<le> int (length xs)"
  shows "isHeap lt xs lastPos = Some (heap_from lt xs lastPos 0)"
proof -
  from isHeap_until_spec [OF assms, of lt]
  obtain r where r: "isHeap_until lt xs lastPos = Some r"
    "(r = lastPos \<and>
           (\<forall>c. 0 < c \<and> c < lastPos \<longrightarrow> \<not> lt (xs ! nat (parent c)) (xs ! nat c))) \<or>
        (0 < r \<and> r < lastPos \<and> lt (xs ! nat (parent r)) (xs ! nat r) \<and>
           (\<forall>c. 0 < c \<and> c < r \<longrightarrow> \<not> lt (xs ! nat (parent c)) (xs ! nat c)))"
    by blast
  have h: "heap_from lt xs lastPos 0 \<longleftrightarrow>
      (\<forall>c. 0 < c \<and> c < lastPos \<longrightarrow> \<not> lt (xs ! nat (parent c)) (xs ! nat c))"
    unfolding heap_from_def using parent_nonneg by blast
  from r(2) have "(r = lastPos) = heap_from lt xs lastPos 0"
    unfolding h by (elim disjE) (blast, metis less_irrefl)
  then show ?thesis by (simp add: isHeap_def r(1))
qed

subsection \<open>Heaps: monotonicity, the root, the frame\<close>

lemma heap_fromD:
  "heap_from lt xs n t \<Longrightarrow> 0 < c \<Longrightarrow> c < n \<Longrightarrow> t \<le> parent c \<Longrightarrow>
     \<not> lt (xs ! nat (parent c)) (xs ! nat c)"
  unfolding heap_from_def by blast

lemma heap_from_mono: "heap_from lt xs n t \<Longrightarrow> m \<le> n \<Longrightarrow> heap_from lt xs m t"
  unfolding heap_from_def by (meson less_le_trans)


lemma heap_root_max:
  assumes swo: "strict_weak_order lt" and h: "heap_from lt xs n 0"
  shows "0 \<le> i \<Longrightarrow> i < n \<Longrightarrow> \<not> lt (xs ! 0) (xs ! nat i)"
proof (induction "nat i" arbitrary: i rule: less_induct)
  case less
  show ?case
  proof (cases "i = 0")
    case True
    then show ?thesis using swo_irrefl [OF swo] by simp
  next
    case False
    then have i0: "0 < i" using less.prems(1) by linarith
    have p0: "0 \<le> parent i" using i0 by (rule parent_nonneg)
    have pl: "parent i < i" using less.prems(1) by (rule parent_less)
    have m: "nat (parent i) < nat i" using p0 pl by linarith
    have pn: "parent i < n" using pl less.prems(2) by linarith
    have 1: "\<not> lt (xs ! 0) (xs ! nat (parent i))" using m p0 pn by (rule less.hyps)
    have 2: "\<not> lt (xs ! nat (parent i)) (xs ! nat i)"
      using h i0 less.prems(2) p0 by (rule heap_fromD)
    show ?thesis using swo 1 2 by (rule swo_ntrans)
  qed
qed

lemma in_set_take_int:
  assumes "a \<in> set (take (nat n) xs)"
  obtains i where "0 \<le> i" "i < n" "i < int (length xs)" "a = xs ! nat i"
proof -
  from assms obtain j where j: "j < length (take (nat n) xs)" "a = take (nat n) xs ! j"
    unfolding in_set_conv_nth by blast
  then have "j < nat n" "j < length xs" by simp_all
  then have "0 \<le> int j" "int j < n" "int j < int (length xs)" by linarith+
  moreover have "a = xs ! nat (int j)" using j by simp
  ultimately show thesis by (rule that)
qed

lemma heap_root_max_set:
  assumes "strict_weak_order lt" "heap_from lt xs n 0" "a \<in> set (take (nat n) xs)"
  shows "\<not> lt (xs ! 0) a"
proof -
  from assms(3) obtain i where "0 \<le> i" "i < n" "a = xs ! nat i" by (rule in_set_take_int)
  then show ?thesis using heap_root_max [OF assms(1,2)] by simp
qed

lemma frame_drop:
  assumes "length ys = length xs" "\<And>i. k \<le> i \<Longrightarrow> ys ! nat i = xs ! nat i" "0 \<le> k"
  shows "drop (nat k) ys = drop (nat k) xs"
proof (rule nth_equalityI)
  show "length (drop (nat k) ys) = length (drop (nat k) xs)" using assms(1) by simp
next
  fix j assume "j < length (drop (nat k) ys)"
  have "k \<le> int (nat k + j)" using assms(3) by linarith
  from assms(2) [OF this] have "ys ! (nat k + j) = xs ! (nat k + j)" unfolding nat_int .
  then show "drop (nat k) ys ! j = drop (nat k) xs ! j"
    using \<open>j < length (drop (nat k) ys)\<close> assms(1) by simp
qed

lemma mset_take_frame:
  assumes "mset ys = mset xs" "drop m ys = drop m xs"
  shows "mset (take m ys) = mset (take m xs)"
proof -
  have "mset (take m ys) + mset (drop m ys) = mset (take m xs) + mset (drop m xs)"
    using assms(1) by (simp flip: mset_append)
  then show ?thesis using assms(2) by simp
qed

lemma promote_inv_last:
  assumes "heap_from lt xs (n - 1) 0" "1 \<le> n"
  shows "promote_inv lt xs n 0 (n - 1) v"
proof -
  have nochild: "\<not> (c < n \<and> parent c = n - 1)" for c
    using assms(2) unfolding parent_eq_iff by auto
  have "\<not> lt (xs ! nat (parent c)) (xs ! nat c)"
    if "0 < c" "c < n" "0 \<le> parent c" "c \<noteq> n - 1" for c
  proof -
    have "c < n - 1" using that(2,4) by linarith
    then show ?thesis using assms(1) that(1,3) by (intro heap_fromD)
  qed
  then show ?thesis
    unfolding promote_inv_def sift_inv_def using nochild by blast
qed

lemma sift_inv_of_heap:
  assumes swo: "strict_weak_order lt" and h: "heap_from lt hs n 0" and pos: "0 \<le> pos"
    and agree: "\<And>i. 0 \<le> i \<Longrightarrow> i < n \<Longrightarrow> i \<noteq> pos \<Longrightarrow> xs ! nat i = hs ! nat i"
  shows "sift_inv lt xs n 0 pos"
proof -
  have a: "\<not> lt (xs ! nat (parent c)) (xs ! nat c)"
    if c: "0 < c" "c < n" "0 \<le> parent c" "c \<noteq> pos" "parent c \<noteq> pos" for c
  proof -
    have c0: "0 \<le> c" using c(1) by linarith
    have pn: "parent c < n" using parent_less [OF c0] c(2) by linarith
    show ?thesis
      using heap_fromD [OF h c(1,2,3)] agree [OF c0 c(2,4)] agree [OF c(3) pn c(5)] by simp
  qed
  have b: "\<not> lt (xs ! nat (parent pos)) (xs ! nat c)"
    if c: "0 < c" "c < n" "parent c = pos" "0 < pos" for c
  proof -
    have c0: "0 \<le> c" using c(1) by linarith
    have pc: "pos < c" using parent_less [OF c0] c(3) by simp
    have posn: "pos < n" using pc c(2) by linarith
    have pp0: "0 \<le> parent pos" using c(4) by (rule parent_nonneg)
    have ppl: "parent pos < pos" using pos by (rule parent_less)
    have ppn: "parent pos < n" using ppl posn by linarith
    have 1: "\<not> lt (hs ! nat (parent pos)) (hs ! nat pos)"
      using h c(4) posn pp0 by (rule heap_fromD)
    have 2: "\<not> lt (hs ! nat pos) (hs ! nat c)"
      using heap_fromD [OF h c(1,2)] pos c(3) by simp
    have 3: "\<not> lt (hs ! nat (parent pos)) (hs ! nat c)" using swo 1 2 by (rule swo_ntrans)
    have "c \<noteq> pos" "parent pos \<noteq> pos" using pc ppl by linarith+
    then show ?thesis using 3 agree [OF c0 c(2)] agree [OF pp0 ppn] by simp
  qed
  show ?thesis unfolding sift_inv_def using a b by blast
qed

subsection \<open>pushHeap\<close>

lemma pushHeap_correct:
  assumes swo: "strict_weak_order lt" and b: "1 \<le> n" "n \<le> int (length xs)"
    and h: "heap_from lt xs (n - 1) 0"
  shows "\<exists>ys. pushHeap lt xs n = Some ys \<and> length ys = length xs \<and> heap_from lt ys n 0 \<and>
           mset ys = mset xs \<and> (\<forall>i. n \<le> i \<longrightarrow> ys ! nat i = xs ! nat i)"
proof -
  let ?v = "xs ! nat (n - 1)"
  have p0: "0 \<le> n - 1" and pl: "n - 1 < int (length xs)" and pn: "n - 1 < n"
    using b by linarith+
  have rdv: "rd xs (n - 1) = Some ?v" using p0 pl by (rule rd_Some)
  have eq: "pushHeap lt xs n = promoteHeap lt xs 0 (n - 1) ?v"
    by (simp add: pushHeap_def rdv)
  from promoteHeap_basic [OF order_refl p0 pl, of lt ?v]
  obtain ys where ys: "promoteHeap lt xs 0 (n - 1) ?v = Some ys" "length ys = length xs"
    "mset ys = mset (xs[nat (n - 1) := ?v])" "\<And>i. n - 1 < i \<Longrightarrow> ys ! nat i = xs ! nat i"
    by blast
  have inv: "promote_inv lt xs n 0 (n - 1) ?v" using h b(1) by (rule promote_inv_last)
  have bl: "below 0 (n - 1)" using p0 by (rule below_zero)
  have hp: "heap_from lt ys n 0"
    using swo order_refl bl pn b(2) inv ys(1) by (rule promoteHeap_heap)
  have fr: "ys ! nat i = xs ! nat i" if "n \<le> i" for i
    using that by (intro ys(4)) linarith
  have m: "mset ys = mset xs" using ys(3) by simp
  show ?thesis using eq ys(1,2) hp m fr by simp
qed

subsection \<open>removeHeap and popHeap\<close>

lemma popHeap_removeHeap: "popHeap lt xs n = removeHeap lt xs n 0"
  by (simp add: popHeap_def removeHeap_def)

lemma removeHeap_inner:
  assumes swo: "strict_weak_order lt" and b: "0 \<le> pos" "pos < h - 1" "h \<le> int (length xs)"
    and hp: "heap_from lt hs (h - 1) 0"
    and agree: "\<And>i. 0 \<le> i \<Longrightarrow> i < h - 1 \<Longrightarrow> i \<noteq> pos \<Longrightarrow> xs ! nat i = hs ! nat i"
  shows "\<exists>ys. removeHeap lt xs h pos = Some ys \<and> length ys = length xs \<and>
           heap_from lt ys (h - 1) 0 \<and> ys ! nat (h - 1) = xs ! nat pos \<and>
           mset ys = mset xs \<and> (\<forall>i. h \<le> i \<longrightarrow> ys ! nat i = xs ! nat i)"
proof -
  let ?n = "h - 1"
  let ?v = "xs ! nat ?n"
  let ?xs1 = "xs[nat ?n := xs ! nat pos]"
  have n0: "0 \<le> ?n" and nl: "?n < int (length xs)" and pl: "pos < int (length xs)"
    using b by linarith+
  have rdv: "rd xs ?n = Some ?v" using n0 nl by (rule rd_Some)
  have rdp: "rd xs pos = Some (xs ! nat pos)" using b(1) pl by (rule rd_Some)
  have wr1: "wr xs ?n (xs ! nat pos) = Some ?xs1" using n0 nl by (rule wr_Some)
  have eq: "removeHeap lt xs h pos = adjustHeap Unbounded lt ?xs1 0 ?n pos ?v"
    by (simp add: removeHeap_def rdv rdp wr1)
  have pl1: "pos < int (length ?xs1)" and nl1: "?n \<le> int (length ?xs1)"
    using pl nl by simp_all
  from adjustHeap_basic [OF order_refl b(1) pl1 nl1, of lt ?v]
  obtain ys where ys: "adjustHeap Unbounded lt ?xs1 0 ?n pos ?v = Some ys" "length ys = length ?xs1"
    "mset ys = mset (?xs1[nat pos := ?v])"
    "\<And>i. ?n \<le> i \<Longrightarrow> pos < i \<Longrightarrow> ys ! nat i = ?xs1 ! nat i"
    by blast
  have ag1: "?xs1 ! nat i = hs ! nat i" if "0 \<le> i" "i < ?n" "i \<noteq> pos" for i
  proof -
    have "nat i \<noteq> nat ?n" using that(1,2) by linarith
    then show ?thesis using agree [OF that] by simp
  qed
  have inv: "sift_inv lt ?xs1 ?n 0 pos" using swo hp b(1) ag1 by (rule sift_inv_of_heap)
  have bl: "below 0 pos" using b(1) by (rule below_zero)
  have heap: "heap_from lt ys ?n 0"
    using swo order_refl bl b(2) nl1 inv ys(1) by (rule adjustHeap_heap)
  have atn: "ys ! nat ?n = xs ! nat pos"
  proof -
    have "ys ! nat ?n = ?xs1 ! nat ?n" using b(2) by (intro ys(4)) linarith+
    then show ?thesis using nl n0 by simp
  qed
  have fr: "ys ! nat i = xs ! nat i" if "h \<le> i" for i
  proof -
    have "ys ! nat i = ?xs1 ! nat i" using that b(2) by (intro ys(4)) linarith+
    moreover have "nat i \<noteq> nat ?n" using that n0 by linarith
    ultimately show ?thesis by simp
  qed
  have ms: "mset ys = mset xs"
  proof -
    have "mset (xs[nat ?n := xs ! nat pos, nat pos := xs ! nat ?n]) = mset xs"
      using pl nl b(1) n0 by (intro mset_swap) linarith+
    then show ?thesis using ys(3) by simp
  qed
  show ?thesis using eq ys(1,2) heap atn ms fr by simp
qed

lemma removeHeap_last:
  assumes "1 \<le> h" "h \<le> int (length xs)"
  shows "removeHeap lt xs h (h - 1) = promoteHeap lt xs 0 (h - 1) (xs ! nat (h - 1))"
proof -
  have n0: "0 \<le> h - 1" and nl: "h - 1 < int (length xs)" using assms by linarith+
  have rdv: "rd xs (h - 1) = Some (xs ! nat (h - 1))" using n0 nl by (rule rd_Some)
  have wr1: "wr xs (h - 1) (xs ! nat (h - 1)) = Some xs"
    using wr_Some [OF n0 nl, of "xs ! nat (h - 1)"] by simp
  have "removeHeap lt xs h (h - 1) = adjustHeap Unbounded lt xs 0 (h - 1) (h - 1) (xs ! nat (h - 1))"
    by (simp add: removeHeap_def rdv wr1)
  then show ?thesis using adjustHeap_outside [OF n0 order_refl] by simp
qed

lemma removeHeap_correct:
  assumes swo: "strict_weak_order lt" and b: "1 \<le> h" "h \<le> int (length xs)" "0 \<le> pos" "pos < h"
    and hp: "heap_from lt xs h 0"
  shows "\<exists>ys. removeHeap lt xs h pos = Some ys \<and> length ys = length xs \<and>
           heap_from lt ys (h - 1) 0 \<and> ys ! nat (h - 1) = xs ! nat pos \<and>
           mset ys = mset xs \<and> (\<forall>i. h \<le> i \<longrightarrow> ys ! nat i = xs ! nat i)"
proof (cases "pos = h - 1")
  case True
  have n0: "0 \<le> h - 1" and nl: "h - 1 < int (length xs)" using b by linarith+
  have stop: "h - 1 \<le> 0 \<or> \<not> lt (xs ! nat (parent (h - 1))) (xs ! nat (h - 1))"
  proof (cases "h - 1 \<le> 0")
    case False
    then have c: "0 < h - 1" by linarith
    have "\<not> lt (xs ! nat (parent (h - 1))) (xs ! nat (h - 1))"
      using heap_fromD [OF hp c _ parent_nonneg [OF c]] by simp
    then show ?thesis by blast
  qed blast
  have "promoteHeap lt xs 0 (h - 1) (xs ! nat (h - 1)) = Some (xs[nat (h - 1) := xs ! nat (h - 1)])"
    using order_refl n0 nl stop by (rule promoteHeap_stop)
  then have "removeHeap lt xs h pos = Some xs"
    using removeHeap_last [OF b(1,2), of lt] True by simp
  moreover have "heap_from lt xs (h - 1) 0" using hp by (rule heap_from_mono) simp
  ultimately show ?thesis using True by simp
next
  case False
  then have pl: "pos < h - 1" using b(4) by linarith
  have hp': "heap_from lt xs (h - 1) 0" using hp by (rule heap_from_mono) simp
  show ?thesis using swo b(3) pl b(2) hp' by (rule removeHeap_inner) simp
qed

subsection \<open>makeHeap\<close>








subsection \<open>A pop step, sortHeap\<close>


lemma pop_step:
  assumes swo: "strict_weak_order lt" and b: "1 \<le> n" "n \<le> int (length xs)"
    and hp: "heap_from lt xs n 0"
  shows "\<exists>ys. popHeap lt xs n = Some ys \<and> length ys = length xs \<and>
           heap_from lt ys (n - 1) 0 \<and> ys ! nat (n - 1) = xs ! 0 \<and> mset ys = mset xs \<and>
           (\<forall>i. n \<le> i \<longrightarrow> ys ! nat i = xs ! nat i) \<and>
           mset (take (nat n) ys) = mset (take (nat n) xs) \<and>
           (\<forall>a\<in>set (take (nat n) ys). \<not> lt (xs ! 0) a)"
proof -
  have n0: "0 \<le> n" "(0::int) \<le> 0" "0 < n" using b(1) by linarith+
  from removeHeap_correct [OF swo b n0(2,3) hp]
  obtain ys where ys: "removeHeap lt xs n 0 = Some ys" "length ys = length xs"
    "heap_from lt ys (n - 1) 0" "ys ! nat (n - 1) = xs ! nat 0" "mset ys = mset xs"
    "\<And>i. n \<le> i \<Longrightarrow> ys ! nat i = xs ! nat i"
    by blast
  have dr: "drop (nat n) ys = drop (nat n) xs" using ys(2,6) n0(1) by (rule frame_drop)
  have mt: "mset (take (nat n) ys) = mset (take (nat n) xs)" using ys(5) dr by (rule mset_take_frame)
  have mx: "\<not> lt (xs ! 0) a" if "a \<in> set (take (nat n) ys)" for a
  proof -
    have "a \<in> set (take (nat n) xs)" using that mset_eq_setD [OF mt] by simp
    then show ?thesis using swo hp by (intro heap_root_max_set)
  qed
  show ?thesis using ys mt mx by (simp add: popHeap_removeHeap)
qed

lemma sorted_wrt_short: "length xs \<le> 1 \<Longrightarrow> sorted_wrt P xs"
  by (cases xs) simp_all

lemma sortHeap_correct:
  "strict_weak_order lt \<Longrightarrow> n \<le> int (length xs) \<Longrightarrow> heap_from lt xs n 0 \<Longrightarrow>
     \<exists>ys. sortHeap lt xs n = Some ys \<and> length ys = length xs \<and> mset ys = mset xs \<and>
          (\<forall>i. n \<le> i \<longrightarrow> ys ! nat i = xs ! nat i) \<and>
          mset (take (nat n) ys) = mset (take (nat n) xs) \<and>
          sorted_wrt (\<lambda>a b. \<not> lt b a) (take (nat n) ys)"
proof (induction "nat n" arbitrary: n xs rule: less_induct)
  case less
  note swo = less.prems(1) and len = less.prems(2) and hp = less.prems(3)
  show ?case
  proof (cases "1 < n")
    case False
    have "sortHeap lt xs n = Some xs" using False by (subst sortHeap.simps) simp
    moreover have "sorted_wrt (\<lambda>a b. \<not> lt b a) (take (nat n) xs)"
      using False by (intro sorted_wrt_short) simp
    ultimately show ?thesis by simp
  next
    case True
    then have n1: "1 \<le> n" by linarith
    from pop_step [OF swo n1 len hp]
    obtain ys1 where ys1: "popHeap lt xs n = Some ys1" "length ys1 = length xs"
      "heap_from lt ys1 (n - 1) 0" "ys1 ! nat (n - 1) = xs ! 0" "mset ys1 = mset xs"
      "\<And>i. n \<le> i \<Longrightarrow> ys1 ! nat i = xs ! nat i"
      "mset (take (nat n) ys1) = mset (take (nat n) xs)"
      "\<And>a. a \<in> set (take (nat n) ys1) \<Longrightarrow> \<not> lt (xs ! 0) a"
      by blast
    have eq: "sortHeap lt xs n = sortHeap lt ys1 (n - 1)"
      using True ys1(1) by (subst sortHeap.simps) simp
    have m: "nat (n - 1) < nat n" and len1: "n - 1 \<le> int (length ys1)"
      using True len ys1(2) by linarith+
    from less.hyps [OF m swo len1 ys1(3)]
    obtain ys where ys: "sortHeap lt ys1 (n - 1) = Some ys" "length ys = length ys1"
      "mset ys = mset ys1" "\<And>i. n - 1 \<le> i \<Longrightarrow> ys ! nat i = ys1 ! nat i"
      "mset (take (nat (n - 1)) ys) = mset (take (nat (n - 1)) ys1)"
      "sorted_wrt (\<lambda>a b. \<not> lt b a) (take (nat (n - 1)) ys)"
      by blast
    have fr: "ys ! nat i = xs ! nat i" if "n \<le> i" for i
    proof -
      have "ys ! nat i = ys1 ! nat i" using that by (intro ys(4)) linarith
      then show ?thesis using ys1(6) [OF that] by simp
    qed
    have n0: "0 \<le> n" using True by linarith
    have ms: "mset ys = mset xs" using ys(3) ys1(5) by simp
    have dr: "drop (nat n) ys = drop (nat n) xs"
      using _ fr n0 by (rule frame_drop) (simp add: ys(2) ys1(2))
    have mt: "mset (take (nat n) ys) = mset (take (nat n) xs)" using ms dr by (rule mset_take_frame)
    have sn: "nat n = Suc (nat (n - 1))" using True by linarith
    have kl: "nat (n - 1) < length ys" using True len ys(2) ys1(2) by linarith
    have at: "ys ! nat (n - 1) = xs ! 0" using ys(4) [of "n - 1"] ys1(4) by simp
    have tk: "take (nat n) ys = take (nat (n - 1)) ys @ [xs ! 0]"
      unfolding sn using kl at by (simp add: take_Suc_conv_app_nth)
    have le: "\<not> lt (xs ! 0) a" if "a \<in> set (take (nat (n - 1)) ys)" for a
    proof -
      have "a \<in> set (take (nat (n - 1)) ys1)" using that mset_eq_setD [OF ys(5)] by simp
      then have "a \<in> set (take (nat n) ys1)"
        using set_take_subset_set_take [of "nat (n - 1)" "nat n" ys1] sn by auto
      then show ?thesis by (rule ys1(8))
    qed
    have so: "sorted_wrt (\<lambda>a b. \<not> lt b a) (take (nat n) ys)"
      unfolding tk using ys(6) le by (simp add: sorted_wrt_append)
    show ?thesis unfolding eq using ys(1,2) ys1(2) ms fr mt so by simp
  qed
qed

subsection \<open>Runs complete whatever the contents\<close>






subsection \<open>changeHeap\<close>



subsection \<open>Popping a whole heap\<close>


subsection \<open>Orders used in the examples, and the frame as a suffix\<close>

lemma swo_less_int: "strict_weak_order ((<) :: int \<Rightarrow> int \<Rightarrow> bool)"
  by (auto simp: strict_weak_order_def)

lemma swo_less_linorder: "strict_weak_order ((<) :: 'a::linorder \<Rightarrow> 'a \<Rightarrow> bool)"
  by (auto simp: strict_weak_order_def)

lemma isHeap_True_iff:
  "lastPos \<le> int (length xs) \<Longrightarrow> isHeap lt xs lastPos = Some True \<longleftrightarrow> heap_from lt xs lastPos 0"
  by (simp add: isHeap_heap_from)

lemma frame_drop_any:
  assumes "length ys = length xs" "\<And>i. k \<le> i \<Longrightarrow> ys ! nat i = xs ! nat i"
  shows "drop (nat k) ys = drop (nat k) xs"
proof (cases "0 \<le> k")
  case True
  with assms show ?thesis by (intro frame_drop)
next
  case False
  have "ys ! nat i = xs ! nat i" if "0 \<le> i" for i
    using that False by (intro assms(2)) linarith
  then have "drop (nat 0) ys = drop (nat 0) xs"
    using assms(1) by (intro frame_drop) simp_all
  then show ?thesis using False by simp
qed

section \<open>The claims\<close>





text \<open>
  Claim C3 (pushHeap). When \<open>[first, last - 1)\<close> is a valid heap and the element at
  \<open>last - 1\<close> is any new value, pushHeap runs to completion and afterwards the whole of
  \<open>[first, last)\<close> is a valid heap with the same multiset of elements; the storage behind
  \<open>last\<close> is untouched.
\<close>

theorem pushHeap_restores_heap:
  assumes "strict_weak_order compare" "1 \<le> lastPos" "lastPos \<le> int (length xs)"
    and "isHeap compare xs (lastPos - 1) = Some True"
  shows "\<exists>ys. pushHeap compare xs lastPos = Some ys \<and>
           isHeap compare ys lastPos = Some True \<and>
           length ys = length xs \<and>
           mset (take (nat lastPos) ys) = mset (take (nat lastPos) xs) \<and>
           drop (nat lastPos) ys = drop (nat lastPos) xs"
proof -
  have l1: "lastPos - 1 \<le> int (length xs)" using assms(3) by linarith
  have hp: "heap_from compare xs (lastPos - 1) 0"
    using l1 assms(4) by (simp add: isHeap_heap_from)
  from pushHeap_correct [OF assms(1-3) hp]
  obtain ys where ys: "pushHeap compare xs lastPos = Some ys" "length ys = length xs"
    "heap_from compare ys lastPos 0" "mset ys = mset xs"
    "\<And>i. lastPos \<le> i \<Longrightarrow> ys ! nat i = xs ! nat i"
    by blast
  have len: "lastPos \<le> int (length ys)" using assms(3) ys(2) by simp
  have h: "isHeap compare ys lastPos = Some True" using ys(3) len by (simp add: isHeap_heap_from)
  have dr: "drop (nat lastPos) ys = drop (nat lastPos) xs" using ys(2,5) by (rule frame_drop_any)
  have mt: "mset (take (nat lastPos) ys) = mset (take (nat lastPos) xs)"
    using ys(4) dr by (rule mset_take_frame)
  show ?thesis using ys(1,2) h mt dr by blast
qed

theorem pushHeap_restores_heap_witness:
  "strict_weak_order ((<) :: int \<Rightarrow> int \<Rightarrow> bool) \<and>
   (1::int) \<le> 8 \<and> (8::int) \<le> int (length [9, 6, 5, 4, 3, 2, 1, 7 :: int]) \<and>
   isHeap (<) [9, 6, 5, 4, 3, 2, 1, 7 :: int] (8 - 1) = Some True \<and>
   pushHeap (<) [9, 6, 5, 4, 3, 2, 1, 7 :: int] 8 = Some [9, 7, 5, 6, 3, 2, 1, 4] \<and>
   isHeap (<) [9, 7, 5, 6, 3, 2, 1, 4 :: int] 8 = Some True"
proof -
  have l: "(1::int) \<le> 8" "(8::int) \<le> int (length [9, 6, 5, 4, 3, 2, 1, 7 :: int])" by simp_all
  have h: "isHeap (<) [9, 6, 5, 4, 3, 2, 1, 7 :: int] (8 - 1) = Some True" by code_simp
  have e: "pushHeap (<) [9, 6, 5, 4, 3, 2, 1, 7 :: int] 8 = Some [9, 7, 5, 6, 3, 2, 1, 4]"
    by code_simp
  from pushHeap_restores_heap [OF swo_less_int l h] e
  show ?thesis using swo_less_int h by auto
qed



lemma sortHeap_sort:
  fixes xs :: "'a::linorder list"
  assumes "lastPos \<le> int (length xs)" "isHeap (<) xs lastPos = Some True"
  shows "sortHeap (<) xs lastPos = Some (sort (take (nat lastPos) xs) @ drop (nat lastPos) xs)"
proof -
  have hp: "heap_from (<) xs lastPos 0"
    using assms by (simp add: isHeap_heap_from)
  from sortHeap_correct [OF swo_less_linorder assms(1) hp]
  obtain ys where ys: "sortHeap (<) xs lastPos = Some ys" "length ys = length xs"
    "\<And>i. lastPos \<le> i \<Longrightarrow> ys ! nat i = xs ! nat i"
    "mset (take (nat lastPos) ys) = mset (take (nat lastPos) xs)"
    "sorted_wrt (\<lambda>a b. \<not> b < a) (take (nat lastPos) ys)"
    by blast
  have dr: "drop (nat lastPos) ys = drop (nat lastPos) xs" using ys(2,3) by (rule frame_drop_any)
  have "(\<lambda>a b :: 'a. \<not> b < a) = (\<le>)" by (intro ext) auto
  then have "sorted (take (nat lastPos) ys)" using ys(5) by simp
  then have "sort (take (nat lastPos) xs) = take (nat lastPos) ys"
    using ys(4) by (intro properties_for_sort)
  then have "ys = sort (take (nat lastPos) xs) @ drop (nat lastPos) xs"
    using dr append_take_drop_id [of "nat lastPos" ys] by simp
  then show ?thesis using ys(1) by simp
qed






text \<open>
  Claim C7 (isHeap_until, isHeap). For every range \<open>[first, last)\<close> of the storage,
  isHeap_until returns a position \<open>r\<close> such that no child position before \<open>r\<close> is above
  its parent \<open>(c - 1) div 2\<close>, and either \<open>r = last\<close> (no violation in the range) or \<open>r\<close>
  is a child position of the range whose parent compares below it: \<open>r\<close> is the first
  violation. isHeap returns true exactly when that position is \<open>last\<close>.
\<close>

theorem isHeap_until_first_violation:
  assumes "lastPos \<le> int (length xs)"
  shows "\<exists>r. isHeap_until compare xs lastPos = Some r \<and>
           isHeap compare xs lastPos = Some (r = lastPos) \<and>
           (\<forall>c. 0 < c \<and> c < r \<longrightarrow> \<not> compare (xs ! nat ((c - 1) div 2)) (xs ! nat c)) \<and>
           (r = lastPos \<or>
            (0 < r \<and> r < lastPos \<and> compare (xs ! nat ((r - 1) div 2)) (xs ! nat r)))"
proof -
  from isHeap_until_spec [OF assms, of compare]
  obtain r where r: "isHeap_until compare xs lastPos = Some r"
    "(r = lastPos \<and>
        (\<forall>c. 0 < c \<and> c < lastPos \<longrightarrow> \<not> compare (xs ! nat (parent c)) (xs ! nat c))) \<or>
     (0 < r \<and> r < lastPos \<and> compare (xs ! nat (parent r)) (xs ! nat r) \<and>
        (\<forall>c. 0 < c \<and> c < r \<longrightarrow> \<not> compare (xs ! nat (parent c)) (xs ! nat c)))"
    by blast
  have 1: "isHeap compare xs lastPos = Some (r = lastPos)" by (simp add: isHeap_def r(1))
  have 2: "\<forall>c. 0 < c \<and> c < r \<longrightarrow> \<not> compare (xs ! nat ((c - 1) div 2)) (xs ! nat c)"
    using r(2) unfolding parent_def by blast
  have 3: "r = lastPos \<or>
      (0 < r \<and> r < lastPos \<and> compare (xs ! nat ((r - 1) div 2)) (xs ! nat r))"
    using r(2) unfolding parent_def by blast
  show ?thesis using r(1) 1 2 3 by blast
qed

theorem isHeap_until_first_violation_witness:
  "(7::int) \<le> int (length [9, 6, 5, 4, 7, 2, 1 :: int]) \<and>
   isHeap_until (<) [9, 6, 5, 4, 7, 2, 1 :: int] 7 = Some 4 \<and>
   isHeap (<) [9, 6, 5, 4, 7, 2, 1 :: int] 7 = Some False \<and>
   [9, 6, 5, 4, 7, 2, 1 :: int] ! nat ((4 - 1) div 2) < [9, 6, 5, 4, 7, 2, 1] ! nat 4"
proof -
  have l: "(7::int) \<le> int (length [9, 6, 5, 4, 7, 2, 1 :: int])" by simp
  have e: "isHeap_until (<) [9, 6, 5, 4, 7, 2, 1 :: int] 7 = Some 4" by code_simp
  from isHeap_until_first_violation [OF l, of "(<)"] e
  show ?thesis by auto
qed








text \<open>
  Claim C10 (trivial ranges). When \<open>last - first \<le> 1\<close>, isHeap_until returns \<open>last\<close> and
  isHeap returns true. This holds for every comparator and every storage, also for a
  storage shorter than the range (where any read would make the embedding return
  \<open>None\<close>): the result depends on no element and on no comparison.
\<close>

theorem isHeap_trivial_range:
  assumes "lastPos \<le> 1"
  shows "isHeap_until compare xs lastPos = Some lastPos \<and> isHeap compare xs lastPos = Some True"
proof -
  have "isHeap_until compare xs lastPos = Some lastPos"
    unfolding isHeap_until_def using assms by (subst isHeap_until_loop.simps) simp
  then show ?thesis by (simp add: isHeap_def)
qed

theorem isHeap_trivial_range_witness:
  "(1::int) \<le> 1 \<and>
   isHeap_until (<) [5 :: int] 1 = Some 1 \<and> isHeap (<) [5 :: int] 1 = Some True \<and>
   isHeap_until (<) ([] :: int list) 1 = Some 1 \<and> isHeap (<) ([] :: int list) 1 = Some True"
proof -
  have l: "(1::int) \<le> 1" by simp
  from isHeap_trivial_range [OF l, of "(<)" "[5 :: int]"]
    isHeap_trivial_range [OF l, of "(<)" "[] :: int list"]
  show ?thesis by simp
qed

end
